theory Spec2Isabelle
  imports Complex_Main "HOL-Library.Word" "HOL-Library.Log_Nat"
begin

section \<open>processSST.py: data\<close>

text \<open>
  The script reads a HadISST text file, keeps one 180 x 360 array of 16-bit integers for
  every month it finds, and writes two images for each month.  The arrays are NumPy
  arrays of \<open>dtype=np.int16\<close>; the palette indices are \<open>np.uint8\<close>.  A two-dimensional
  array is a list of rows.
\<close>

type_synonym int16 = "16 word"

type_synonym uint8 = "8 word"

type_synonym grid = "int16 list list"

datatype py_error = ValueError | NameError | KeyError | IndexError

section \<open>The colour palette\<close>

text \<open>
  The script builds the palette as a flat list of 768 integers: the two reserved triples
  black and white, then for every \<open>e\<close> in \<open>range(2,256)\<close> the three appended values
  \<open>e\<close> (red), \<open>0\<close> (green) and \<open>255-e\<close> (blue). \<open>putpalette\<close> reads the flat list as
  consecutive RGB triples, so entry \<open>i\<close> of the table is the triple at offsets
  \<open>3i\<close>, \<open>3i+1\<close>, \<open>3i+2\<close>.
\<close>

fun palette_loop :: "int list \<Rightarrow> nat list \<Rightarrow> int list" where
  "palette_loop p [] = p"
| "palette_loop p (e # es) = palette_loop (p @ [int e, 0, 255 - int e]) es"

definition palette :: "int list" where
  "palette = palette_loop [0, 0, 0, 255, 255, 255] [2..<256]"

definition palette_entry :: "nat \<Rightarrow> int \<times> int \<times> int" where
  "palette_entry i = (palette ! (3 * i), palette ! (3 * i + 1), palette ! (3 * i + 2))"

section \<open>Double-precision arithmetic\<close>

text \<open>
  The colour-mapping pass computes in \<open>float64\<close>.  A finite double is a rational number,
  and every basic IEEE 754 operation returns the exact result rounded to the nearest
  double, ties to the even significand.  \<open>float64\<close> is that rounding: \<open>binade x\<close> is the
  exponent \<open>e\<close> with \<open>2^e \<le> |x| < 2^(e+1)\<close>, the spacing of doubles there is
  \<open>2^(e-52)\<close>, and \<open>x\<close> is rounded to the nearest multiple of the spacing.  The exponent
  is not bounded in the model; \<open>in_normal_range\<close> is the range in which every number
  rounded by this program is shown to lie (lemma \<open>gradient_arguments_normal\<close>), where
  neither overflow nor subnormal numbers occur.
\<close>

definition round_half_even :: "rat \<Rightarrow> int" where
  "round_half_even y =
     (let f = \<lfloor>y\<rfloor>; d = y - of_int f
      in if d < 1 / 2 then f
         else if 1 / 2 < d then f + 1
         else if even f then f else f + 1)"

definition binade :: "rat \<Rightarrow> int" where
  "binade x =
     (let a = \<bar>x\<bar>
      in if 1 \<le> a then bitlen \<lfloor>a\<rfloor> - 1 else - bitlen (\<lceil>1 / a\<rceil> - 1))"

definition float64 :: "rat \<Rightarrow> rat" where
  "float64 x =
     (if x = 0 then 0
      else (let u = 2 powi (binade x - 52) in of_int (round_half_even (x / u)) * u))"

definition in_normal_range :: "rat \<Rightarrow> bool" where
  "in_normal_range x \<longleftrightarrow> x = 0 \<or> (1 / 128 \<le> \<bar>x\<bar> \<and> \<bar>x\<bar> \<le> 4096)"

section \<open>The colour-mapping pass\<close>

text \<open>
  The pass works on whole arrays, one NumPy operation after the other:
  \<^verbatim>\<open>
  copy = na.copy().astype(np.float)/100.00
  copy += 5
  copy *= 253.0/35.00
  copy += 2
  copy  = np.clip(copy,2,255).astype(np.uint8)
  copy[na==-32768] = 0
  copy[na==-1000]  = 1
  \<close>
  \<open>array_map\<close> is an elementwise operation, and \<open>np.float\<close> is the double type of
  the NumPy releases that have the name.  The conversion of an \<open>int16\<close> to
  \<open>float64\<close> is exact, the constants \<open>100\<close>, \<open>5\<close>, \<open>253\<close>, \<open>35\<close> and \<open>2\<close> are doubles,
  and the factor \<open>253.0/35.00\<close> is itself the rounded quotient.  \<open>astype(np.uint8)\<close>
  truncates towards zero; its argument lies between 2 and 255 after the clip.  The two
  masked assignments overwrite the cells where the input array holds a sentinel.
\<close>

definition array_map :: "('a \<Rightarrow> 'b) \<Rightarrow> 'a list list \<Rightarrow> 'b list list" where
  "array_map f a = map (map f) a"

definition astype_float :: "int16 \<Rightarrow> rat" where
  "astype_float x = of_int (sint x)"

definition np_clip :: "rat \<Rightarrow> rat \<Rightarrow> rat \<Rightarrow> rat" where
  "np_clip x lo hi = min (max x lo) hi"

definition astype_uint8 :: "rat \<Rightarrow> uint8" where
  "astype_uint8 x = word_of_int (if 0 \<le> x then \<lfloor>x\<rfloor> else \<lceil>x\<rceil>)"

definition mask_assign :: "grid \<Rightarrow> int \<Rightarrow> uint8 \<Rightarrow> uint8 list list \<Rightarrow> uint8 list list" where
  "mask_assign na s v copy =
     map2 (\<lambda>nrow crow. map2 (\<lambda>n x. if sint n = s then v else x) nrow crow) na copy"

definition colour_pass :: "grid \<Rightarrow> uint8 list list" where
  "colour_pass na =
     (let copy = array_map (\<lambda>x. float64 (astype_float x / 100)) na;
          copy = array_map (\<lambda>x. float64 (x + 5)) copy;
          copy = array_map (\<lambda>x. float64 (x * float64 (253 / 35))) copy;
          copy = array_map (\<lambda>x. float64 (x + 2)) copy;
          copy = array_map (\<lambda>x. astype_uint8 (np_clip x 2 255)) copy;
          copy = mask_assign na (- 32768) 0 copy;
          copy = mask_assign na (- 1000) 1 copy
      in copy)"

text \<open>
  What the pass does to one cell: \<open>gradient\<close> is the chain of the four rounded operations,
  \<open>colour_index\<close> the index the cell ends with.  Lemma \<open>colour_pass_cell\<close> below shows
  that the pass computes \<open>colour_index\<close> at every position.
\<close>

definition gradient :: "int \<Rightarrow> rat" where
  "gradient n =
     float64 (float64 (float64 (float64 (of_int n / 100) + 5) * float64 (253 / 35)) + 2)"

definition colour_index :: "int16 \<Rightarrow> uint8" where
  "colour_index x =
     (if sint x = - 1000 then 1
      else if sint x = - 32768 then 0
      else astype_uint8 (np_clip (gradient (sint x)) 2 255))"

text \<open>
  The rule of the specification, in exact arithmetic: scale the raw value to degrees,
  shift by 5, rescale by \<open>253/35\<close>, offset by 2, clamp to \<open>[2, 255]\<close> and truncate.
  \<open>exact_idx\<close> is the value before the clamp.
\<close>

definition spec_index :: "int \<Rightarrow> int" where
  "spec_index raw =
     (let deg = (of_int raw :: rat) / 100;
          deg' = deg + 5;
          idx = deg' * (253 / 35) + 2
      in \<lfloor>min (max idx 2) 255\<rfloor>)"

definition exact_idx :: "int \<Rightarrow> rat" where
  "exact_idx n = (of_int n / 100 + 5) * (253 / 35) + 2"

section \<open>Strings\<close>

text \<open>
  A Python string is a list of characters; the model covers the code points below 256.
  \<open>str.split()\<close> without argument splits at runs of whitespace and returns no empty
  token.  \<open>int(s)\<close> strips whitespace at both ends, reads an optional sign and then
  decimal digits, where a single underscore may stand between two digits; anything else
  raises \<open>ValueError\<close>, here \<open>None\<close>.  The two functions do not agree on what
  whitespace is: \<open>split\<close> also takes the four separators \<open>0x1C\<close> to \<open>0x1F\<close>.
  A slice \<open>s[i:j]\<close> never raises: it is cut at the end of the string.
\<close>

definition split_space :: "char \<Rightarrow> bool" where
  "split_space ch \<longleftrightarrow>
     ch \<in> {CHR 0x09, CHR 0x0A, CHR 0x0B, CHR 0x0C, CHR 0x0D, CHR 0x1C, CHR 0x1D, CHR 0x1E,
           CHR 0x1F, CHR 0x20, CHR 0x85, CHR 0xA0}"

definition int_space :: "char \<Rightarrow> bool" where
  "int_space ch \<longleftrightarrow>
     ch \<in> {CHR 0x09, CHR 0x0A, CHR 0x0B, CHR 0x0C, CHR 0x0D, CHR 0x20, CHR 0x85, CHR 0xA0}"

fun split_from :: "string \<Rightarrow> string \<Rightarrow> string list" where
  "split_from tok [] = (if tok = [] then [] else [tok])"
| "split_from tok (ch # cs) =
     (if split_space ch then (if tok = [] then split_from [] cs else tok # split_from [] cs)
      else split_from (tok @ [ch]) cs)"

definition py_split :: "string \<Rightarrow> string list" where
  "py_split s = split_from [] s"

definition py_slice :: "string \<Rightarrow> nat \<Rightarrow> nat \<Rightarrow> string" where
  "py_slice s i j = take (j - i) (drop i s)"

definition is_digit :: "char \<Rightarrow> bool" where
  "is_digit ch \<longleftrightarrow> ch \<in> set ''0123456789''"

definition digit_val :: "char \<Rightarrow> int" where
  "digit_val ch = int (of_char ch) - 48"

fun parse_digits :: "int \<Rightarrow> bool \<Rightarrow> string \<Rightarrow> int option" where
  "parse_digits acc prev [] = (if prev then Some acc else None)"
| "parse_digits acc prev (ch # cs) =
     (if is_digit ch then parse_digits (10 * acc + digit_val ch) True cs
      else if ch = CHR ''_'' \<and> prev then parse_digits acc False cs
      else None)"

definition py_strip :: "string \<Rightarrow> string" where
  "py_strip s = rev (dropWhile int_space (rev (dropWhile int_space s)))"

definition py_int :: "string \<Rightarrow> int option" where
  "py_int s =
     (case py_strip s of
        [] \<Rightarrow> None
      | ch # cs \<Rightarrow>
          if ch = CHR ''-'' then map_option uminus (parse_digits 0 False cs)
          else if ch = CHR ''+'' then parse_digits 0 False cs
          else parse_digits 0 False (ch # cs))"

section \<open>The dictionary of months\<close>

text \<open>
  A Python dictionary keeps its keys in the order of their first insertion; assigning to
  a key that is present replaces the value and leaves the key where it is.
\<close>

fun dict_set :: "('k \<times> 'v) list \<Rightarrow> 'k \<Rightarrow> 'v \<Rightarrow> ('k \<times> 'v) list" where
  "dict_set [] k v = [(k, v)]"
| "dict_set ((k', v') # d) k v =
     (if k' = k then (k, v) # d else (k', v') # dict_set d k v)"

definition dict_get :: "('k \<times> 'v) list \<Rightarrow> 'k \<Rightarrow> 'v option" where
  "dict_get d k = map_of d k"

section \<open>The parsing loop\<close>

text \<open>
  The file is opened in text mode and read with \<open>readline\<close>, which returns the text up
  to and including the next newline, the rest of the file when no newline is left, and the
  empty string at the end of the file.  The argument of \<open>file_lines\<close> is the decoded
  content of the file, with every line end already translated to the newline character;
  its value is the sequence of the results of \<open>readline\<close> before the end, none of them
  empty.  The loop leaves at the first empty result.

  The loop keeps the dictionary \<open>months\<close> and the variables \<open>M\<close>, \<open>Y\<close> and \<open>r\<close>, which
  are unbound until the first header line; reading an unbound variable raises
  \<open>NameError\<close>.  The variables \<open>D\<close> and \<open>DMY\<close> are only printed, and the printed lines
  are not part of the model.
\<close>

fun readlines :: "string \<Rightarrow> string \<Rightarrow> string list" where
  "readlines cur [] = (if cur = [] then [] else [cur])"
| "readlines cur (ch # cs) =
     (if ch = CHR 0x0A then (cur @ [ch]) # readlines [] cs else readlines (cur @ [ch]) cs)"

definition file_lines :: "string \<Rightarrow> string list" where
  "file_lines text = readlines [] text"

record pstate =
  months :: "(string \<times> grid) list"
  var_M :: "string option"
  var_Y :: "string option"
  var_r :: "nat option"

definition initial_state :: pstate where
  "initial_state = \<lparr>months = [], var_M = None, var_Y = None, var_r = None\<rparr>"

definition np_zeros :: "nat \<Rightarrow> nat \<Rightarrow> grid" where
  "np_zeros rows cols = replicate rows (replicate cols 0)"

text \<open>
  A header line: \<open>(D, M, Y, *_) = line.split()\<close> raises \<open>ValueError\<close> on fewer than
  three tokens, before anything is assigned.
\<close>

definition header_line :: "string \<Rightarrow> pstate \<Rightarrow> py_error + pstate" where
  "header_line line st =
     (case py_split line of
        D # M # Y # _ \<Rightarrow>
          Inr (st\<lparr>months := dict_set (months st) M (np_zeros 180 360),
                  var_M := Some M, var_Y := Some Y, var_r := Some 0\<rparr>)
      | _ \<Rightarrow> Inl ValueError)"

text \<open>
  The assignment \<open>months[M][r,c] = v\<close>, after its right-hand side has been evaluated:
  \<open>M\<close> is looked up, then the dictionary entry, then \<open>r\<close>, and the store checks the
  indices against the shape of the array.  The value is stored in a 16-bit cell: an
  integer outside \<open>-32768..32767\<close> is reduced modulo \<open>2^16\<close>, as the NumPy releases do for
  which the rest of the script runs (those that still have \<open>np.float\<close>).
\<close>

definition store_cell :: "pstate \<Rightarrow> nat \<Rightarrow> int \<Rightarrow> py_error + pstate" where
  "store_cell st c v =
     (case var_M st of
        None \<Rightarrow> Inl NameError
      | Some m \<Rightarrow>
          (case dict_get (months st) m of
             None \<Rightarrow> Inl KeyError
           | Some na \<Rightarrow>
               (case var_r st of
                  None \<Rightarrow> Inl NameError
                | Some r \<Rightarrow>
                    if r < length na \<and> c < length (na ! r)
                    then Inr (st\<lparr>months :=
                                dict_set (months st) m (na[r := (na ! r)[c := word_of_int v]])\<rparr>)
                    else Inl IndexError)))"

fun data_cells :: "string \<Rightarrow> nat list \<Rightarrow> pstate \<Rightarrow> py_error + pstate" where
  "data_cells line [] st = Inr st"
| "data_cells line (c # cs) st =
     (case py_int (py_slice line (6 * c) (6 * c + 6)) of
        None \<Rightarrow> Inl ValueError
      | Some v \<Rightarrow>
          (case store_cell st c v of
             Inl e \<Rightarrow> Inl e
           | Inr st' \<Rightarrow> data_cells line cs st'))"

definition data_line :: "string \<Rightarrow> pstate \<Rightarrow> py_error + pstate" where
  "data_line line st =
     (case data_cells line [0..<360] st of
        Inl e \<Rightarrow> Inl e
      | Inr st' \<Rightarrow>
          (case var_r st' of
             None \<Rightarrow> Inl NameError
           | Some r \<Rightarrow> Inr (st'\<lparr>var_r := Some (r + 1)\<rparr>)))"

fun parse_loop :: "string list \<Rightarrow> pstate \<Rightarrow> py_error + pstate" where
  "parse_loop [] st = Inr st"
| "parse_loop (line # rest) st =
     (if length line < 1 then Inr st
      else if length line < 50 then
        (case header_line line st of
           Inl e \<Rightarrow> Inl e
         | Inr st' \<Rightarrow> parse_loop rest st')
      else
        (case data_line line st of
           Inl e \<Rightarrow> Inl e
         | Inr st' \<Rightarrow> parse_loop rest st'))"

definition parse_file :: "string \<Rightarrow> py_error + pstate" where
  "parse_file text = parse_loop (file_lines text) initial_state"

section \<open>Writing the images\<close>

text \<open>
  For every entry of the dictionary, in its order, the script writes the array itself as
  a TIFF file and the palette indices with the palette as a PNG file.  The two encoders
  (\<open>tifffile.imsave\<close> and \<open>PIL.Image.save\<close>) are outside the script: a write is recorded as
  the file name with the data handed to the encoder, and a later write to the same name
  replaces the earlier file.  The year in the names is the variable \<open>Y\<close> as the parsing
  loop left it.
\<close>

datatype image = RawTiff grid | PalettePng "uint8 list list" "int list"

definition pad_month :: "string \<Rightarrow> string" where
  "pad_month month = (if length month < 2 then ''0'' @ month else month)"

fun render_loop :: "(string \<times> grid) list \<Rightarrow> string option \<Rightarrow> py_error + (string \<times> image) list" where
  "render_loop [] y = Inr []"
| "render_loop ((month, na) # rest) y =
     (case y of
        None \<Rightarrow> Inl NameError
      | Some Y \<Rightarrow>
          (let month = pad_month month;
               DMY = ''01-'' @ month @ ''-'' @ Y;
               rawname = DMY @ ''-raw.tif'';
               rgbname = DMY @ ''-RGB.png''
           in case render_loop rest y of
                Inl e \<Rightarrow> Inl e
              | Inr writes \<Rightarrow>
                  Inr ((rawname, RawTiff na) # (rgbname, PalettePng (colour_pass na) palette) # writes)))"

definition files_after :: "(string \<times> image) list \<Rightarrow> string \<Rightarrow> image option" where
  "files_after writes = map_of (rev writes)"

definition main :: "string \<Rightarrow> py_error + (string \<times> image) list" where
  "main text =
     (case parse_file text of
        Inl e \<Rightarrow> Inl e
      | Inr st \<Rightarrow> render_loop (months st) (var_Y st))"

section \<open>Expected results\<close>

text \<open>
  The notions the properties are stated with.  Field \<open>c\<close> of a data line is its slice
  \<open>[6c, 6c+6)\<close>; a data line is well formed when it is at least 50 characters long (so the
  loop takes it for a data line) and each of its 360 fields is an integer literal.
  \<open>cell_of\<close> is the 16-bit value the parser stores for a field, \<open>row_of\<close> the row of a
  line, and \<open>block_grid\<close> the array after a header followed by the given data lines: one
  row per line, and zeros below.
\<close>

definition field :: "string \<Rightarrow> nat \<Rightarrow> string" where
  "field line c = py_slice line (6 * c) (6 * c + 6)"

definition good_line :: "string \<Rightarrow> bool" where
  "good_line line \<longleftrightarrow>
     50 \<le> length line \<and> list_all (\<lambda>c. py_int (field line c) \<noteq> None) [0..<360]"

definition cell_of :: "string \<Rightarrow> nat \<Rightarrow> int16" where
  "cell_of line c = (case py_int (field line c) of None \<Rightarrow> 0 | Some v \<Rightarrow> word_of_int v)"

definition row_of :: "string \<Rightarrow> int16 list" where
  "row_of line = map (cell_of line) [0..<360]"

definition block_grid :: "string list \<Rightarrow> grid" where
  "block_grid ls = map row_of ls @ replicate (180 - length ls) (replicate 360 0)"

text \<open>
  A header line is a line of fewer than 50 characters; its month and year are its second
  and third token.  \<open>last_year\<close> is the year of the last header line of a file.
  \<open>zero_pad2\<close> pads a string with zeros on the left to two characters, and
  \<open>output_names\<close> are the two file names of a month: day \<open>01\<close>, the padded month, the
  year, and the suffix of the format.
\<close>

definition is_header :: "string \<Rightarrow> bool" where
  "is_header line \<longleftrightarrow> length line < 50"

definition year_of :: "string \<Rightarrow> string option" where
  "year_of line = (case py_split line of D # M # Y # _ \<Rightarrow> Some Y | _ \<Rightarrow> None)"

definition last_year :: "string list \<Rightarrow> string option" where
  "last_year ls = (case rev (filter is_header ls) of [] \<Rightarrow> None | h # _ \<Rightarrow> year_of h)"

definition zero_pad2 :: "string \<Rightarrow> string" where
  "zero_pad2 s = replicate (2 - length s) (CHR ''0'') @ s"

definition output_names :: "string \<Rightarrow> string \<Rightarrow> string list" where
  "output_names month year =
     [''01-'' @ zero_pad2 month @ ''-'' @ year @ ''-raw.tif'',
      ''01-'' @ zero_pad2 month @ ''-'' @ year @ ''-RGB.png'']"

section \<open>Sample files\<close>

text \<open>
  Files to run the program on.  \<open>uniform_line w\<close> is a data line whose 360 fields are all
  the six characters \<open>w\<close>; \<open>period_text h w\<close> is a header line \<open>h\<close> followed by 180 such
  lines.  \<open>cell_at\<close> reads one cell of a parse result, as a signed integer, and
  \<open>uniform_grid v\<close> is the 180 x 360 array whose cells all hold \<open>v\<close>.
\<close>

definition uniform_line :: "string \<Rightarrow> string" where
  "uniform_line w = concat (replicate 360 w) @ [CHR 0x0A]"

definition period_text :: "string \<Rightarrow> string \<Rightarrow> string" where
  "period_text h w = h @ [CHR 0x0A] @ concat (replicate 180 (uniform_line w))"

definition cell_at :: "py_error + pstate \<Rightarrow> string \<Rightarrow> nat \<Rightarrow> nat \<Rightarrow> int option" where
  "cell_at res key r c =
     (case res of
        Inl e \<Rightarrow> None
      | Inr st \<Rightarrow>
          (case dict_get (months st) key of
             None \<Rightarrow> None
           | Some g \<Rightarrow> if r < length g \<and> c < length (g ! r) then Some (sint (g ! r ! c)) else None))"

definition uniform_grid :: "int16 \<Rightarrow> grid" where
  "uniform_grid v = replicate 180 (replicate 360 v)"

definition plain_file :: string where
  "plain_file = period_text ''1 01 1870'' ''  -180''"

definition overflow_file :: string where
  "overflow_file = period_text ''1 01 1870'' '' 40000''"

definition two_year_file :: string where
  "two_year_file = period_text ''1 01 1870'' ''  -180'' @ period_text ''1 02 1871'' ''  2150''"

definition same_month_file :: string where
  "same_month_file = period_text ''1 01 1870'' ''  -180'' @ period_text ''1 01 1871'' ''  2150''"

definition padded_month_file :: string where
  "padded_month_file = period_text ''1 1 1870'' ''  -180'' @ period_text ''1 01 1870'' ''  2150''"

definition short_line :: string where
  "short_line = concat (replicate 359 ''     7'') @ ''    7''"

definition short_line_file :: string where
  "short_line_file = ''1 01 1870'' @ [CHR 0x0A] @ short_line"

definition cut_line :: string where
  "cut_line = concat (replicate 359 ''     7'') @ [CHR 0x0A]"

definition cut_line_file :: string where
  "cut_line_file = ''1 01 1870'' @ [CHR 0x0A] @ cut_line"

definition truncated_file :: string where
  "truncated_file = ''1 01 1870'' @ [CHR 0x0A] @ replicate 60 (CHR ''7'')"

definition headerless_file :: string where
  "headerless_file = uniform_line ''  -180'' @ ''1 01 1870'' @ [CHR 0x0A]"

section \<open>Properties of the palette\<close>

lemma palette_loop_append:
  "palette_loop p es = p @ concat (map (\<lambda>e. [int e, 0, 255 - int e]) es)"
  by (induction es arbitrary: p) simp_all

lemma concat_triples_length:
  "length (concat (map (\<lambda>e. [f e, g e, h e]) es)) = 3 * length es"
  by (induction es) simp_all

lemma concat_triples_nth:
  "i < length es \<Longrightarrow>
   concat (map (\<lambda>e. [f e, g e, h e]) es) ! (3 * i) = f (es ! i) \<and>
   concat (map (\<lambda>e. [f e, g e, h e]) es) ! (3 * i + 1) = g (es ! i) \<and>
   concat (map (\<lambda>e. [f e, g e, h e]) es) ! (3 * i + 2) = h (es ! i)"
proof (induction es arbitrary: i)
  case Nil
  then show ?case by simp
next
  case (Cons a es)
  show ?case
  proof (cases i)
    case 0
    then show ?thesis by simp
  next
    case (Suc k)
    with Cons.prems have k: "k < length es" by simp
    have e0: "3 * Suc k = Suc (Suc (Suc (3 * k)))" by simp
    have e1: "3 * Suc k + 1 = Suc (Suc (Suc (3 * k + 1)))" by simp
    have e2: "3 * Suc k + 2 = Suc (Suc (Suc (3 * k + 2)))" by simp
    show ?thesis
      unfolding Suc e0 e1 e2 using Cons.IH [OF k] by simp
  qed
qed

lemma palette_flat:
  "palette = [0, 0, 0, 255, 255, 255] @ concat (map (\<lambda>e. [int e, 0, 255 - int e]) [2..<256])"
  by (simp only: palette_def palette_loop_append)

lemma palette_length: "length palette = 768"
  by (simp add: palette_flat concat_triples_length del: upt_rec_numeral)

lemma palette_gradient_entry:
  assumes "2 \<le> e" and "e \<le> 255"
  shows "palette_entry e = (int e, 0, 255 - int e)"
proof -
  define k where "k = e - 2"
  have k: "k < length [2..<256]" and e: "e = k + 2"
    using assms by (simp_all add: k_def del: upt_rec_numeral)
  have "2 + k < 256"
    using assms e by simp
  then have nthk: "[2..<256] ! k = e"
    using e by (simp only: nth_upt)
  have i0: "3 * e = 6 + 3 * k" and i1: "3 * e + 1 = 6 + (3 * k + 1)"
    and i2: "3 * e + 2 = 6 + (3 * k + 2)"
    using e by simp_all
  have len6: "length [0, 0, 0, 255, 255, 255 :: int] = 6" by simp
  note T = concat_triples_nth [OF k, of int "\<lambda>_. 0" "\<lambda>e. 255 - int e"]
  have shift: "palette ! (6 + j) = concat (map (\<lambda>e. [int e, 0, 255 - int e]) [2..<256]) ! j" for j
    unfolding palette_flat
    using nth_append_length_plus [of "[0, 0, 0, 255, 255, 255 :: int]" _ j]
    by (simp only: len6)
  have "palette ! (3 * e) = int e"
    unfolding i0 shift using T nthk by simp
  moreover have "palette ! (3 * e + 1) = 0"
    unfolding i1 shift using T nthk by simp
  moreover have "palette ! (3 * e + 2) = 255 - int e"
    unfolding i2 shift using T nthk by simp
  ultimately show ?thesis
    by (simp add: palette_entry_def)
qed

lemma palette_reserved_entries:
  "palette_entry 0 = (0, 0, 0)" "palette_entry 1 = (255, 255, 255)"
  by (simp_all add: palette_entry_def palette_flat del: upt_rec_numeral)

text \<open>
  Claim C4. The palette is a constant of the program (it depends on no input); it is a
  table of 256 RGB triples (768 flat values) whose entry 0 is black, whose entry 1 is
  white and whose entry \<open>e\<close>, for every \<open>e\<close> from 2 to 255, is \<open>(e, 0, 255 - e)\<close>.
\<close>

theorem palette_table:
  "length palette = 3 * 256 \<and>
   palette_entry 0 = (0, 0, 0) \<and>
   palette_entry 1 = (255, 255, 255) \<and>
   (\<forall>e. 2 \<le> e \<and> e \<le> 255 \<longrightarrow> palette_entry e = (int e, 0, 255 - int e))"
  using palette_length palette_reserved_entries palette_gradient_entry by simp

theorem palette_table_witness:
  "(2::nat) \<le> 100 \<and> (100::nat) \<le> 255 \<and> palette_entry 100 = (100, 0, 155)"
  using palette_table by simp

section \<open>Properties of the rounding\<close>

lemma round_half_even_error: "\<bar>of_int (round_half_even y) - y\<bar> \<le> 1 / 2"
proof -
  have "of_int \<lfloor>y\<rfloor> \<le> y" "y < of_int \<lfloor>y\<rfloor> + 1"
    by linarith+
  then show ?thesis
    by (auto simp: round_half_even_def Let_def)
qed

lemma binade_bounds_ge1:
  assumes "1 \<le> (a::rat)"
  shows "2 powi (bitlen \<lfloor>a\<rfloor> - 1) \<le> a" and "a < 2 powi (bitlen \<lfloor>a\<rfloor>)"
proof -
  define n where "n = \<lfloor>a\<rfloor>"
  have n: "0 < n" using assms by (simp add: n_def)
  have na: "of_int n \<le> a" "a < of_int n + 1"
    unfolding n_def by linarith+
  from bitlen_bounds [OF n] have lo: "2 ^ nat (bitlen n - 1) \<le> n" and hi: "n + 1 \<le> 2 ^ nat (bitlen n)"
    by simp_all
  have b1: "1 \<le> bitlen n"
    using n bitlen_eq_zero_iff [of n] bitlen_nonneg [of n] by linarith
  have "(2::rat) powi (bitlen n - 1) = of_int (2 ^ nat (bitlen n - 1))"
    using b1 by (simp add: power_int_def)
  also have "\<dots> \<le> of_int n"
    using lo by (simp only: of_int_le_iff)
  also have "\<dots> \<le> a"
    by (rule na)
  finally show "2 powi (bitlen \<lfloor>a\<rfloor> - 1) \<le> a"
    by (simp only: n_def)
  have "a < of_int (n + 1)" using na by simp
  also have "\<dots> \<le> of_int (2 ^ nat (bitlen n))"
    using hi by (simp only: of_int_le_iff)
  also have "\<dots> = (2::rat) powi (bitlen n)"
    using b1 by (simp add: power_int_def)
  finally show "a < 2 powi (bitlen \<lfloor>a\<rfloor>)"
    by (simp add: n_def)
qed

lemma binade_bounds_lt1:
  assumes "0 < (a::rat)" and "a < 1"
  shows "2 powi (- bitlen (\<lceil>1 / a\<rceil> - 1)) \<le> a"
    and "a < 2 powi (- bitlen (\<lceil>1 / a\<rceil> - 1) + 1)"
proof -
  define m where "m = \<lceil>1 / a\<rceil> - 1"
  have y1: "1 < 1 / a" using assms by simp
  have my: "of_int m < 1 / a" "1 / a \<le> of_int m + 1"
    unfolding m_def by linarith+
  have m: "0 < m"
    using y1 my by linarith
  from bitlen_bounds [OF m] have lo: "2 ^ nat (bitlen m - 1) \<le> m" and hi: "m + 1 \<le> 2 ^ nat (bitlen m)"
    by simp_all
  have b1: "1 \<le> bitlen m"
    using m bitlen_eq_zero_iff [of m] bitlen_nonneg [of m] by linarith
  have "1 / a \<le> of_int (m + 1)" using my by simp
  also have "\<dots> \<le> of_int (2 ^ nat (bitlen m))"
    using hi by (simp only: of_int_le_iff)
  also have "\<dots> = (2::rat) ^ nat (bitlen m)" by simp
  finally have "1 / a \<le> 2 ^ nat (bitlen m)" .
  then have "1 \<le> 2 ^ nat (bitlen m) * a"
    using assms by (simp add: field_simps)
  then have "1 / 2 ^ nat (bitlen m) \<le> a"
    by (simp add: field_simps)
  moreover have "(2::rat) powi (- bitlen m) = 1 / 2 ^ nat (bitlen m)"
    using b1 by (simp add: power_int_def field_simps)
  ultimately show "2 powi (- bitlen (\<lceil>1 / a\<rceil> - 1)) \<le> a"
    by (simp add: m_def)
  have "(2::rat) ^ nat (bitlen m - 1) = of_int (2 ^ nat (bitlen m - 1))" by simp
  also have "\<dots> \<le> of_int m"
    using lo by (simp only: of_int_le_iff)
  also have "\<dots> < 1 / a" by (rule my)
  finally have "2 ^ nat (bitlen m - 1) * a < 1"
    using assms by (simp add: field_simps)
  then have "a < 1 / 2 ^ nat (bitlen m - 1)"
    by (simp add: field_simps)
  moreover have "(2::rat) powi (- bitlen m + 1) = 1 / 2 ^ nat (bitlen m - 1)"
  proof -
    have "- bitlen m + 1 = - (bitlen m - 1)" by simp
    then show ?thesis
      using b1 by (simp only: power_int_minus_divide) (simp add: power_int_def)
  qed
  ultimately show "a < 2 powi (- bitlen (\<lceil>1 / a\<rceil> - 1) + 1)"
    by (simp add: m_def)
qed

lemma binade_bounds:
  assumes "x \<noteq> 0"
  shows "2 powi (binade x) \<le> \<bar>x\<bar>" and "\<bar>x\<bar> < 2 powi (binade x + 1)"
proof -
  have pos: "0 < \<bar>x\<bar>" using assms by simp
  show "2 powi (binade x) \<le> \<bar>x\<bar>"
  proof (cases "1 \<le> \<bar>x\<bar>")
    case True
    then show ?thesis
      using binade_bounds_ge1(1) [OF True] by (simp add: binade_def)
  next
    case False
    then have "\<bar>x\<bar> < 1" by simp
    from binade_bounds_lt1(1) [OF pos this] False show ?thesis
      by (simp add: binade_def)
  qed
  show "\<bar>x\<bar> < 2 powi (binade x + 1)"
  proof (cases "1 \<le> \<bar>x\<bar>")
    case True
    then show ?thesis
      using binade_bounds_ge1(2) [OF True] by (simp add: binade_def)
  next
    case False
    then have "\<bar>x\<bar> < 1" by simp
    from binade_bounds_lt1(2) [OF pos this] False show ?thesis
      by (simp add: binade_def)
  qed
qed

lemma float64_error: "\<bar>float64 x - x\<bar> \<le> \<bar>x\<bar> / 2 ^ 53"
proof (cases "x = 0")
  case True
  then show ?thesis by (simp add: float64_def)
next
  case False
  define u :: rat where "u = 2 powi (binade x - 52)"
  have u: "0 < u" by (simp add: u_def)
  have fx: "float64 x = of_int (round_half_even (x / u)) * u"
    using False by (simp add: float64_def u_def Let_def)
  have "float64 x - x = (of_int (round_half_even (x / u)) - x / u) * u"
    using u by (simp add: fx field_simps)
  then have "\<bar>float64 x - x\<bar> = \<bar>of_int (round_half_even (x / u)) - x / u\<bar> * u"
    using u by (simp add: abs_mult)
  also have "\<dots> \<le> 1 / 2 * u"
    using round_half_even_error [of "x / u"] u by (intro mult_right_mono) simp_all
  also have "1 / 2 * u = 2 powi (binade x) / 2 ^ 53"
  proof -
    have "(2::rat) powi (binade x - 52 + 52) = 2 powi (binade x - 52) * 2 powi 52"
      by (rule power_int_add) simp
    then show ?thesis by (simp add: u_def)
  qed
  also have "\<dots> \<le> \<bar>x\<bar> / 2 ^ 53"
    using binade_bounds(1) [OF False] by (simp add: divide_right_mono)
  finally show ?thesis .
qed

text \<open>
  The accumulated rounding error of the four operations, for every 16-bit input: the
  computed value differs from the exact one by less than \<open>2^-36\<close>.
\<close>

lemma float64_const: "float64 (253 / 35) = 8138647898033825 / 1125899906842624"
  by code_simp

lemma float64_error_bound:
  assumes "- 4096 \<le> x" and "x \<le> 4096"
  shows "x - 1 / 2199023255552 \<le> float64 x" and "float64 x \<le> x + 1 / 2199023255552"
proof -
  have "\<bar>float64 x - x\<bar> \<le> \<bar>x\<bar> / 2 ^ 53"
    by (rule float64_error)
  also have "\<dots> \<le> 4096 / 2 ^ 53"
    using assms by (intro divide_right_mono) auto
  also have "\<dots> = 1 / 2 ^ 41" by simp
  finally have "\<bar>float64 x - x\<bar> \<le> 1 / 2199023255552" by simp
  then show "x - 1 / 2199023255552 \<le> float64 x" and "float64 x \<le> x + 1 / 2199023255552"
    by linarith+
qed

lemma scale_step:
  fixes t fb :: rat
  assumes "t - 1 / 1099511627776 \<le> fb" and "fb \<le> t + 1 / 1099511627776"
    and "- 333 \<le> t" and "t \<le> 333"
  shows "t * (253 / 35) - 1 / 137438953472 \<le> fb * (8138647898033825 / 1125899906842624)"
    and "fb * (8138647898033825 / 1125899906842624) \<le> t * (253 / 35) + 1 / 137438953472"
    and "- 2500 \<le> t * (253 / 35)" and "t * (253 / 35) \<le> 2500"
proof -
  have "- 333 * (253 / 35) \<le> t * (253 / 35)"
    using assms(3) by (intro mult_right_mono) simp_all
  then show "- 2500 \<le> t * (253 / 35)" by simp
  have "t * (253 / 35) \<le> 333 * (253 / 35)"
    using assms(4) by (intro mult_right_mono) simp_all
  then show "t * (253 / 35) \<le> 2500" by simp
  have k: "(8138647898033825 / 1125899906842624 :: rat) = 253 / 35 + 3 / 39406496739491840"
    by simp
  have t1: "- 333 * (3 / 39406496739491840) \<le> t * (3 / 39406496739491840)"
    using assms(3) by (intro mult_right_mono) simp_all
  have t2: "t * (3 / 39406496739491840) \<le> 333 * (3 / 39406496739491840)"
    using assms(4) by (intro mult_right_mono) simp_all
  have "(t - 1 / 1099511627776) * (8138647898033825 / 1125899906842624)
      \<le> fb * (8138647898033825 / 1125899906842624)"
    using assms(1) by (intro mult_right_mono) simp_all
  moreover have "(t - 1 / 1099511627776) * (8138647898033825 / 1125899906842624)
      = t * (253 / 35) + t * (3 / 39406496739491840)
        - 1 / 1099511627776 * (8138647898033825 / 1125899906842624)"
    by (simp add: field_simps)
  ultimately show "t * (253 / 35) - 1 / 137438953472 \<le> fb * (8138647898033825 / 1125899906842624)"
    using t1 by linarith
  have "fb * (8138647898033825 / 1125899906842624)
      \<le> (t + 1 / 1099511627776) * (8138647898033825 / 1125899906842624)"
    using assms(2) by (intro mult_right_mono) simp_all
  moreover have "(t + 1 / 1099511627776) * (8138647898033825 / 1125899906842624)
      = t * (253 / 35) + t * (3 / 39406496739491840)
        + 1 / 1099511627776 * (8138647898033825 / 1125899906842624)"
    by (simp add: field_simps)
  ultimately show "fb * (8138647898033825 / 1125899906842624) \<le> t * (253 / 35) + 1 / 137438953472"
    using t2 by linarith
qed

lemma gradient_stages:
  fixes n :: int
  assumes "- 32768 \<le> n" and "n \<le> 32767"
  defines "a \<equiv> (of_int n :: rat) / 100"
  defines "fa \<equiv> float64 a"
  defines "fb \<equiv> float64 (fa + 5)"
  defines "fc \<equiv> float64 (fb * (8138647898033825 / 1125899906842624))"
  shows "- 328 \<le> a" and "a \<le> 328"
    and "a - 1 / 2199023255552 \<le> fa" and "fa \<le> a + 1 / 2199023255552"
    and "a + 5 - 1 / 1099511627776 \<le> fb" and "fb \<le> a + 5 + 1 / 1099511627776"
    and "(a + 5) * (253 / 35) - 1 / 137438953472 \<le> fb * (8138647898033825 / 1125899906842624)"
    and "fb * (8138647898033825 / 1125899906842624) \<le> (a + 5) * (253 / 35) + 1 / 137438953472"
    and "- 2500 \<le> (a + 5) * (253 / 35)" and "(a + 5) * (253 / 35) \<le> 2500"
    and "fb * (8138647898033825 / 1125899906842624) - 1 / 2199023255552 \<le> fc"
    and "fc \<le> fb * (8138647898033825 / 1125899906842624) + 1 / 2199023255552"
    and "gradient n = float64 (fc + 2)"
proof -
  show "gradient n = float64 (fc + 2)"
    unfolding gradient_def float64_const fc_def fb_def fa_def a_def ..
  have "(of_int (- 32768) :: rat) \<le> of_int n" "(of_int n :: rat) \<le> of_int 32767"
    using assms(1,2) by (simp_all only: of_int_le_iff)
  then show a: "- 328 \<le> a" "a \<le> 328"
    by (simp_all add: a_def)
  show ea: "a - 1 / 2199023255552 \<le> fa" "fa \<le> a + 1 / 2199023255552"
    unfolding fa_def using a by (intro float64_error_bound; linarith)+
  have b: "- 4096 \<le> fa + 5" "fa + 5 \<le> 4096"
    using a ea by linarith+
  have eb: "fa + 5 - 1 / 2199023255552 \<le> fb" "fb \<le> fa + 5 + 1 / 2199023255552"
    unfolding fb_def using b by (intro float64_error_bound; linarith)+
  show tb: "a + 5 - 1 / 1099511627776 \<le> fb" "fb \<le> a + 5 + 1 / 1099511627776"
    using ea eb by linarith+
  have t: "- 333 \<le> a + 5" "a + 5 \<le> 333"
    using a by linarith+
  note sc = scale_step [OF tb t]
  from sc show "(a + 5) * (253 / 35) - 1 / 137438953472
        \<le> fb * (8138647898033825 / 1125899906842624)"
    and "fb * (8138647898033825 / 1125899906842624) \<le> (a + 5) * (253 / 35) + 1 / 137438953472"
    and "- 2500 \<le> (a + 5) * (253 / 35)" and "(a + 5) * (253 / 35) \<le> 2500"
    by simp_all
  have c: "- 2501 \<le> fb * (8138647898033825 / 1125899906842624)"
    "fb * (8138647898033825 / 1125899906842624) \<le> 2501"
    using sc by linarith+
  show "fb * (8138647898033825 / 1125899906842624) - 1 / 2199023255552 \<le> fc"
    "fc \<le> fb * (8138647898033825 / 1125899906842624) + 1 / 2199023255552"
    unfolding fc_def using c by (intro float64_error_bound; linarith)+
qed

lemma gradient_close:
  assumes "- 32768 \<le> n" and "n \<le> 32767"
  shows "exact_idx n - 1 / 68719476736 \<le> gradient n"
    and "gradient n \<le> exact_idx n + 1 / 68719476736"
proof -
  define a :: rat where "a = of_int n / 100"
  define fc where "fc = float64 (float64 (float64 a + 5) * (8138647898033825 / 1125899906842624))"
  note st = gradient_stages [OF assms, folded a_def, folded fc_def]
  have d: "- 4096 \<le> fc + 2" "fc + 2 \<le> 4096"
    using st(7-12) by linarith+
  have ed: "fc + 2 - 1 / 2199023255552 \<le> float64 (fc + 2)"
    "float64 (fc + 2) \<le> fc + 2 + 1 / 2199023255552"
    using d by (intro float64_error_bound; linarith)+
  have ex: "exact_idx n = (a + 5) * (253 / 35) + 2"
    by (simp only: exact_idx_def a_def)
  show "exact_idx n - 1 / 68719476736 \<le> gradient n"
    unfolding st(13) ex using st(7,11) ed by linarith
  show "gradient n \<le> exact_idx n + 1 / 68719476736"
    unfolding st(13) ex using st(8,12) ed by linarith
qed

text \<open>
  The exact value \<open>253 (n + 500) / 3500 + 2\<close> is an integer only for \<open>n = -500\<close> and
  \<open>n = 3000\<close> (253 and 3500 are coprime); everywhere else between the two it is at least
  \<open>1/3500\<close> away from every integer, so the rounding error cannot move it across one.
\<close>

lemma dvd_3500_cancel:
  assumes "(3500::int) dvd 253 * m"
  shows "3500 dvd m"
proof -
  from assms have "3500 dvd 3417 * (253 * m)" by (rule dvd_mult)
  moreover have "3417 * (253 * m) = m + 3500 * (247 * m)" by simp
  ultimately have "3500 dvd m + 3500 * (247 * m)" by simp
  then show ?thesis by (simp only: dvd_add_times_triv_right_iff mult.commute [of 3500])
qed

lemma exact_idx_fraction: "exact_idx n = of_int (253 * (n + 500) + 7000) / 3500"
  by (simp add: exact_idx_def field_simps)

lemma exact_idx_between:
  assumes "- 500 < n" and "n < 3000"
  obtains q where "2 \<le> q" and "q \<le> 254"
    and "of_int q + 1 / 3500 \<le> exact_idx n" and "exact_idx n \<le> of_int q + 3499 / 3500"
proof -
  define N where "N = 253 * (n + 500) + 7000"
  define q where "q = N div 3500"
  define r where "r = N mod 3500"
  have N: "N = 3500 * q + r" by (simp add: q_def r_def)
  have r: "0 \<le> r" "r < 3500" by (simp_all add: r_def)
  have "r \<noteq> 0"
  proof
    assume "r = 0"
    then have "3500 dvd N" by (simp add: r_def dvd_eq_mod_eq_0)
    moreover have "N = 253 * (n + 500) + 3500 * 2" by (simp add: N_def)
    ultimately have "3500 dvd 253 * (n + 500)"
      by (simp only: dvd_add_times_triv_right_iff mult.commute [of 3500])
    then have "3500 dvd n + 500" by (rule dvd_3500_cancel)
    then obtain k where k: "n + 500 = 3500 * k" ..
    with assms have "0 < 3500 * k" "3500 * k < 3500 * 1" by simp_all
    then have "0 < k" "k < 1" by simp_all
    then show False by simp
  qed
  with r have r1: "1 \<le> r" "r \<le> 3499" by simp_all
  have Nb: "7000 < N" "N < 892500" using assms by (simp_all add: N_def)
  have q2: "2 \<le> q" using Nb N r by linarith
  have q254: "q \<le> 254" using Nb N r by linarith
  have "exact_idx n = of_int N / 3500"
    by (simp only: exact_idx_fraction N_def)
  also have "\<dots> = of_int (3500 * q + r) / 3500"
    by (simp only: N)
  also have "\<dots> = of_int q + of_int r / 3500"
    by (simp add: field_simps)
  finally have ex: "exact_idx n = of_int q + of_int r / 3500" .
  have "(of_int 1 :: rat) \<le> of_int r" "(of_int r :: rat) \<le> of_int 3499"
    using r1 by (simp_all only: of_int_le_iff)
  then have "(1 :: rat) / 3500 \<le> of_int r / 3500" "(of_int r :: rat) / 3500 \<le> 3499 / 3500"
    by simp_all
  with ex have "of_int q + 1 / 3500 \<le> exact_idx n" "exact_idx n \<le> of_int q + 3499 / 3500"
    by simp_all
  with q2 q254 show thesis by (rule that)
qed

lemma exact_idx_low:
  assumes "n \<le> - 501"
  shows "exact_idx n \<le> 2 - 253 / 3500"
proof -
  have "(of_int n :: rat) \<le> of_int (- 501)" using assms by (simp only: of_int_le_iff)
  then show ?thesis by (simp add: exact_idx_def field_simps)
qed

lemma exact_idx_high:
  assumes "3001 \<le> n"
  shows "255 + 253 / 3500 \<le> exact_idx n"
proof -
  have "(of_int 3001 :: rat) \<le> of_int n" using assms by (simp only: of_int_le_iff)
  then show ?thesis by (simp add: exact_idx_def field_simps)
qed

lemma spec_index_exact: "spec_index n = \<lfloor>min (max (exact_idx n) 2) 255\<rfloor>"
  by (simp add: spec_index_def exact_idx_def Let_def)

lemma gradient_at_lower_knee: "gradient (- 500) = 2"
  by code_simp

lemma gradient_at_upper_knee: "gradient 3000 = 255"
  by code_simp

lemma clipped_gradient_floor:
  assumes "- 32768 \<le> n" and "n \<le> 32767"
  shows "\<lfloor>np_clip (gradient n) 2 255\<rfloor> = spec_index n"
    and "2 \<le> spec_index n" and "spec_index n \<le> 255"
proof -
  note gc = gradient_close [OF assms]
  consider "n \<le> - 501" | "n = - 500" | "- 500 < n" "n < 3000" | "n = 3000" | "3001 \<le> n"
    by linarith
  then have "\<lfloor>np_clip (gradient n) 2 255\<rfloor> = spec_index n \<and> 2 \<le> spec_index n \<and> spec_index n \<le> 255"
  proof cases
    case 1
    from exact_idx_low [OF 1] gc have "gradient n \<le> 2" "exact_idx n \<le> 2" by linarith+
    then show ?thesis
      by (simp add: np_clip_def spec_index_exact max_def min_def)
  next
    case 2
    have "exact_idx (- 500) = 2" by (simp add: exact_idx_def)
    then show ?thesis
      unfolding 2 by (simp add: np_clip_def spec_index_exact gradient_at_lower_knee)
  next
    case 3
    from exact_idx_between [OF 3] obtain q where q: "2 \<le> q" "q \<le> 254"
      "of_int q + 1 / 3500 \<le> exact_idx n" "exact_idx n \<le> of_int q + 3499 / 3500"
      by blast
    have qr: "(2::rat) \<le> of_int q" "(of_int q :: rat) \<le> 254"
      using q(1,2) by simp_all
    have e: "of_int q \<le> exact_idx n" "exact_idx n < of_int q + 1"
      using q(3,4) by linarith+
    have g: "of_int q \<le> gradient n" "gradient n < of_int q + 1"
      using q(3,4) gc by linarith+
    have ce: "min (max (exact_idx n) 2) 255 = exact_idx n"
      using e qr by (simp add: max_def min_def)
    have cg: "np_clip (gradient n) 2 255 = gradient n"
      using g qr by (simp add: np_clip_def max_def min_def)
    have "\<lfloor>exact_idx n\<rfloor> = q" using e by (intro floor_unique) simp_all
    moreover have "\<lfloor>gradient n\<rfloor> = q" using g by (intro floor_unique) simp_all
    ultimately show ?thesis
      using q(1,2) by (simp add: spec_index_exact ce cg)
  next
    case 4
    have "exact_idx 3000 = 255" by (simp add: exact_idx_def)
    then show ?thesis
      unfolding 4 by (simp add: np_clip_def spec_index_exact gradient_at_upper_knee)
  next
    case 5
    from exact_idx_high [OF 5] gc have "255 \<le> gradient n" "255 \<le> exact_idx n" by linarith+
    then show ?thesis
      by (simp add: np_clip_def spec_index_exact max_def min_def)
  qed
  then show "\<lfloor>np_clip (gradient n) 2 255\<rfloor> = spec_index n"
    and "2 \<le> spec_index n" and "spec_index n \<le> 255"
    by simp_all
qed

section \<open>The rounding model and the doubles of this program\<close>

lemma round_half_even_of_int: "round_half_even (of_int m) = m"
  by (simp add: round_half_even_def)

lemma round_half_even_ge:
  assumes "of_int k \<le> y"
  shows "k \<le> round_half_even y"
proof -
  from assms have "k \<le> \<lfloor>y\<rfloor>" by (simp add: le_floor_iff)
  then show ?thesis
    by (simp add: round_half_even_def Let_def)
qed

lemma round_half_even_le:
  assumes "y \<le> of_int k"
  shows "round_half_even y \<le> k"
proof (cases "y = of_int \<lfloor>y\<rfloor>")
  case True
  then have "round_half_even y = \<lfloor>y\<rfloor>"
    by (simp add: round_half_even_def)
  moreover from assms have "\<lfloor>y\<rfloor> \<le> k"
    by (metis floor_mono floor_of_int)
  ultimately show ?thesis by simp
next
  case False
  have "of_int \<lfloor>y\<rfloor> < y"
    using False of_int_floor_le [of y] by (auto simp: less_le)
  with assms have "(of_int \<lfloor>y\<rfloor> :: rat) < of_int k" by simp
  then have "\<lfloor>y\<rfloor> < k" by (simp only: of_int_less_iff)
  then have "\<lfloor>y\<rfloor> + 1 \<le> k" by simp
  then show ?thesis
    by (simp add: round_half_even_def Let_def)
qed

text \<open>
  The result of the rounding is a double: an integer significand of at most 53 bits times
  the spacing of its binade.  A number of that form is left as it is.
\<close>

lemma float64_significand:
  assumes "x \<noteq> 0"
  obtains m where "float64 x = of_int m * 2 powi (binade x - 52)"
    and "2 ^ 52 \<le> \<bar>m\<bar>" and "\<bar>m\<bar> \<le> 2 ^ 53"
proof -
  define u :: rat where "u = 2 powi (binade x - 52)"
  define m where "m = round_half_even (x / u)"
  have u: "0 < u" by (simp add: u_def)
  have fx: "float64 x = of_int m * u"
    using assms by (simp add: float64_def u_def m_def Let_def)
  have e: "(2::rat) powi (binade x) = u * 2 ^ 52"
  proof -
    have "(2::rat) powi (binade x - 52 + 52) = 2 powi (binade x - 52) * 2 powi 52"
      by (rule power_int_add) simp
    then show ?thesis by (simp add: u_def)
  qed
  have e1: "(2::rat) powi (binade x + 1) = u * 2 ^ 53"
  proof -
    have "(2::rat) powi (binade x - 52 + 53) = 2 powi (binade x - 52) * 2 powi 53"
      by (rule power_int_add) simp
    moreover have "binade x - 52 + 53 = binade x + 1" by simp
    ultimately show ?thesis by (simp add: u_def)
  qed
  from binade_bounds [OF assms] have b: "u * 2 ^ 52 \<le> \<bar>x\<bar>" "\<bar>x\<bar> < u * 2 ^ 53"
    by (simp_all only: e e1)
  have q: "2 ^ 52 \<le> \<bar>x\<bar> / u" "\<bar>x\<bar> / u \<le> 2 ^ 53"
    using b u by (simp_all add: field_simps)
  have "2 ^ 52 \<le> \<bar>m\<bar> \<and> \<bar>m\<bar> \<le> 2 ^ 53"
  proof (cases "0 \<le> x")
    case True
    then have "\<bar>x\<bar> / u = x / u" by simp
    with q have "of_int (2 ^ 52) \<le> x / u" "x / u \<le> of_int (2 ^ 53)" by simp_all
    then have "2 ^ 52 \<le> m" "m \<le> 2 ^ 53"
      unfolding m_def by (simp_all only: round_half_even_ge round_half_even_le)
    then show ?thesis by simp
  next
    case False
    then have "\<bar>x\<bar> / u = - (x / u)" by simp
    with q have "x / u \<le> of_int (- (2 ^ 52))" "of_int (- (2 ^ 53)) \<le> x / u" by simp_all
    then have "m \<le> - (2 ^ 52)" "- (2 ^ 53) \<le> m"
      unfolding m_def by (simp_all only: round_half_even_ge round_half_even_le)
    then show ?thesis by simp
  qed
  with fx show thesis
    by (intro that [of m]) (simp_all add: u_def)
qed

lemma float64_representable:
  assumes "x = of_int m * 2 powi (binade x - 52)"
  shows "float64 x = x"
proof (cases "x = 0")
  case True
  then show ?thesis by (simp add: float64_def)
next
  case False
  have "x / 2 powi (binade x - 52) = of_int m"
    by (subst assms) simp
  then have "float64 x = of_int m * 2 powi (binade x - 52)"
    using False by (simp add: float64_def Let_def round_half_even_of_int)
  with assms show ?thesis by simp
qed

lemma float64_samples:
  "float64 (1 / 100) = 5764607523034235 / 576460752303423488"
  "float64 (1 / 3) = 6004799503160661 / 18014398509481984"
  "float64 (1 / 10) = 3602879701896397 / 36028797018963968"
  "float64 (- 32768 / 100) = - 5764607523034235 / 17592186044416"
  "float64 9007199254740993 = 9007199254740992"
  "float64 5 = 5" "float64 100 = 100" "float64 (- 5) = - 5"
  by code_simp+


text \<open>
  The model does not bound the exponent.  This loses nothing here: for every 16-bit
  input, each number that the pass rounds is zero or of magnitude between \<open>1/128\<close> and
  \<open>4096\<close>, far from the overflow and the subnormal doubles.
\<close>

lemma scaled_away_from_zero:
  fixes t :: rat
  assumes "1 / 100 \<le> \<bar>t\<bar>"
  shows "1 / 100 * (253 / 35) \<le> \<bar>t * (253 / 35)\<bar>"
proof -
  have "\<bar>t * (253 / 35)\<bar> = \<bar>t\<bar> * (253 / 35)"
    by (simp add: abs_mult)
  moreover have "1 / 100 * (253 / 35) \<le> \<bar>t\<bar> * (253 / 35)"
    using assms by (intro mult_right_mono) simp_all
  ultimately show ?thesis by simp
qed

lemma exact_idx_away_from_zero: "84 / 3500 \<le> \<bar>exact_idx n\<bar>"
proof -
  define N where "N = 253 * (n + 500) + 7000"
  have "N \<le> - 84 \<or> 169 \<le> N"
  proof (cases "n + 500 \<le> - 28")
    case True
    then show ?thesis by (simp add: N_def)
  next
    case False
    then have "- 27 \<le> n + 500" by simp
    then show ?thesis by (simp add: N_def)
  qed
  then have "(of_int N :: rat) \<le> of_int (- 84) \<or> (of_int 169 :: rat) \<le> of_int N"
    by (simp only: of_int_le_iff)
  then have "(of_int N :: rat) / 3500 \<le> - 84 / 3500 \<or> 169 / 3500 \<le> (of_int N :: rat) / 3500"
    by simp
  moreover have "exact_idx n = of_int N / 3500"
    by (simp only: exact_idx_fraction N_def)
  ultimately show ?thesis by linarith
qed

lemma gradient_arguments_normal:
  fixes n :: int
  assumes "- 32768 \<le> n" and "n \<le> 32767"
  defines "a \<equiv> (of_int n :: rat) / 100"
  defines "fa \<equiv> float64 a"
  defines "fb \<equiv> float64 (fa + 5)"
  defines "fc \<equiv> float64 (fb * float64 (253 / 35))"
  shows "in_normal_range (253 / 35)" and "in_normal_range a" and "in_normal_range (fa + 5)"
    and "in_normal_range (fb * float64 (253 / 35))" and "in_normal_range (fc + 2)"
    and "gradient n = float64 (fc + 2)"
proof -
  note st = gradient_stages [OF assms(1,2), folded a_def, folded fa_def, folded fb_def,
      folded fc_def [unfolded float64_const]]
  show "gradient n = float64 (fc + 2)"
    by (rule st(13))
  show "in_normal_range (253 / 35)"
    by (simp add: in_normal_range_def)
  show "in_normal_range a"
  proof (cases "n = 0")
    case True
    then show ?thesis by (simp add: in_normal_range_def a_def)
  next
    case False
    then have "1 \<le> \<bar>n\<bar>" by simp
    then have "(of_int 1 :: rat) \<le> of_int \<bar>n\<bar>" by (simp only: of_int_le_iff)
    then have "1 / 100 \<le> \<bar>a\<bar>" by (simp add: a_def)
    with st(1,2) show ?thesis
      unfolding in_normal_range_def by linarith
  qed
  have five: "1 / 100 \<le> \<bar>a + 5\<bar>" if "n \<noteq> - 500"
  proof -
    from that have "1 \<le> n + 500 \<or> n + 500 \<le> - 1" by linarith
    then have "(of_int 1 :: rat) \<le> of_int (n + 500) \<or> (of_int (n + 500) :: rat) \<le> of_int (- 1)"
      by (simp only: of_int_le_iff)
    then have k: "(1 :: rat) \<le> of_int n + 500 \<or> (of_int n :: rat) + 500 \<le> - 1"
      by simp
    have "a * 100 = of_int n" by (simp add: a_def)
    with k have "1 / 100 \<le> a + 5 \<or> a + 5 \<le> - 1 / 100"
      by (elim disjE) simp_all
    then show ?thesis by (elim disjE) simp_all
  qed
  show "in_normal_range (fa + 5)"
  proof (cases "n = - 500")
    case True
    then have "fa = float64 (- 5)" by (simp add: fa_def a_def)
    then have "fa = - 5" by (simp only: float64_samples)
    then show ?thesis by (simp add: in_normal_range_def)
  next
    case False
    from five [OF False] st(1-4) show ?thesis
      unfolding in_normal_range_def by linarith
  qed
  show "in_normal_range (fb * float64 (253 / 35))"
  proof (cases "n = - 500")
    case True
    then have "fa = float64 (- 5)" by (simp add: fa_def a_def)
    then have "fa = - 5" by (simp only: float64_samples)
    then have "fb = float64 0" by (simp add: fb_def)
    moreover have "float64 0 = 0" by (simp add: float64_def)
    ultimately show ?thesis by (simp add: in_normal_range_def)
  next
    case False
    from scaled_away_from_zero [OF five [OF False]] st(7-10) show ?thesis
      unfolding in_normal_range_def float64_const by linarith
  qed
  show "in_normal_range (fc + 2)"
  proof -
    have "exact_idx n = (a + 5) * (253 / 35) + 2"
      by (simp only: exact_idx_def a_def)
    with exact_idx_away_from_zero [of n] st(7-12) show ?thesis
      unfolding in_normal_range_def by linarith
  qed
qed

section \<open>Properties of the colour-mapping pass\<close>

lemma array_map_nth:
  "r < length a \<Longrightarrow> c < length (a ! r) \<Longrightarrow> array_map f a ! r ! c = f (a ! r ! c)"
  by (simp add: array_map_def)

lemma array_map_shape:
  "length (array_map f a) = length a"
  "r < length a \<Longrightarrow> length (array_map f a ! r) = length (a ! r)"
  by (simp_all add: array_map_def)

lemma array_map_comp: "array_map f (array_map g a) = array_map (f \<circ> g) a"
  by (simp add: array_map_def)

lemma mask_assign_nth:
  assumes "length copy = length na" and "r < length na"
    and "length (copy ! r) = length (na ! r)" and "c < length (na ! r)"
  shows "mask_assign na s v copy ! r ! c = (if sint (na ! r ! c) = s then v else copy ! r ! c)"
  using assms by (simp add: mask_assign_def)

lemma mask_assign_shape:
  assumes "length copy = length na"
  shows "length (mask_assign na s v copy) = length na"
    and "r < length na \<Longrightarrow> length (copy ! r) = length (na ! r) \<Longrightarrow>
         length (mask_assign na s v copy ! r) = length (na ! r)"
  using assms by (simp_all add: mask_assign_def)

lemma colour_pass_shape:
  "length (colour_pass na) = length na"
  "r < length na \<Longrightarrow> length (colour_pass na ! r) = length (na ! r)"
  by (simp_all add: colour_pass_def Let_def mask_assign_shape array_map_shape)

lemma colour_pass_cell:
  assumes "r < length na" and "c < length (na ! r)"
  shows "colour_pass na ! r ! c = colour_index (na ! r ! c)"
  using assms
  by (simp add: colour_pass_def Let_def mask_assign_nth mask_assign_shape array_map_shape
      array_map_nth colour_index_def gradient_def astype_float_def)

lemma sint16_range: "- 32768 \<le> sint (x :: int16)" "sint (x :: int16) \<le> 32767"
  using sint_ge [of x] sint_lt [of x] by simp_all

lemma uint8_of_index:
  assumes "2 \<le> k" and "k \<le> 255"
  shows "uint (word_of_int k :: uint8) = k"
  using assms by (simp add: uint_word_of_int take_bit_eq_mod)

lemma clipped_gradient_index:
  "astype_uint8 (np_clip (gradient (sint (x :: int16))) 2 255) = word_of_int (spec_index (sint x))"
proof -
  have "0 \<le> np_clip (gradient (sint x)) 2 255"
    by (simp add: np_clip_def)
  then show ?thesis
    by (simp add: astype_uint8_def clipped_gradient_floor(1) [OF sint16_range])
qed

lemma spec_index_range: "2 \<le> spec_index (sint (x :: int16))" "spec_index (sint (x :: int16)) \<le> 255"
  using sint16_range [of x] by (simp_all add: clipped_gradient_floor(2,3))

lemma colour_index_gradient:
  assumes "sint (x :: int16) \<noteq> - 32768" and "sint x \<noteq> - 1000"
  shows "uint (colour_index x) = spec_index (sint x)"
proof -
  have "colour_index x = word_of_int (spec_index (sint x))"
    using assms by (simp add: colour_index_def clipped_gradient_index)
  then show ?thesis
    using spec_index_range [of x] by (simp add: uint8_of_index)
qed

lemma spec_index_sample: "spec_index 1234 = 127"
  by code_simp

lemma exact_idx_mono:
  assumes "m \<le> n"
  shows "exact_idx m \<le> exact_idx n"
proof -
  have "(of_int m :: rat) \<le> of_int n" using assms by (simp only: of_int_le_iff)
  then show ?thesis by (simp add: exact_idx_def field_simps)
qed

lemma spec_index_mono:
  assumes "m \<le> n"
  shows "spec_index m \<le> spec_index n"
  unfolding spec_index_exact
  using exact_idx_mono [OF assms] by (intro floor_mono min.mono max.mono) simp_all

lemma spec_index_low:
  assumes "n \<le> - 500"
  shows "spec_index n = 2"
proof -
  have "exact_idx n \<le> exact_idx (- 500)" using assms by (rule exact_idx_mono)
  also have "exact_idx (- 500) = 2" by (simp add: exact_idx_def)
  finally show ?thesis by (simp add: spec_index_exact max_def)
qed

lemma spec_index_high:
  assumes "3000 \<le> n"
  shows "spec_index n = 255"
proof -
  have "exact_idx 3000 = 255" by (simp add: exact_idx_def)
  moreover have "exact_idx 3000 \<le> exact_idx n" using assms by (rule exact_idx_mono)
  ultimately have "255 \<le> exact_idx n" by simp
  then show ?thesis by (simp add: spec_index_exact max_def min_def)
qed

text \<open>
  Claim C2. In every cell whose raw value is neither \<open>-32768\<close> nor \<open>-1000\<close> the
  palette index computed by the pass is the one the rule gives in exact arithmetic
  (raw/100, plus 5, times 253/35, plus 2, clamped to 2..255, truncated), and it lies
  between 2 and 255.
\<close>

theorem gradient_mapping:
  assumes "r < length na" and "c < length (na ! r)"
    and "sint (na ! r ! c) \<noteq> - 32768" and "sint (na ! r ! c) \<noteq> - 1000"
  shows "uint (colour_pass na ! r ! c) = spec_index (sint (na ! r ! c)) \<and>
         2 \<le> uint (colour_pass na ! r ! c) \<and> uint (colour_pass na ! r ! c) \<le> 255"
  using colour_index_gradient [OF assms(3,4)] spec_index_range [of "na ! r ! c"]
  by (simp add: colour_pass_cell [OF assms(1,2)])

theorem gradient_mapping_witness:
  "uint (colour_pass (uniform_grid 1234) ! 17 ! 200) = 127"
  using gradient_mapping [of 17 "uniform_grid 1234" 200]
  by (simp add: uniform_grid_def spec_index_sample)

text \<open>
  Claim C3. In every grid and at every position, a cell holding \<open>-32768\<close> gets index 0
  and a cell holding \<open>-1000\<close> gets index 1, whatever the other cells hold and whatever
  the gradient would have given.
\<close>

theorem sentinel_mapping:
  assumes "r < length na" and "c < length (na ! r)"
  shows "(sint (na ! r ! c) = - 32768 \<longrightarrow> colour_pass na ! r ! c = 0) \<and>
         (sint (na ! r ! c) = - 1000 \<longrightarrow> colour_pass na ! r ! c = 1)"
  by (simp add: colour_pass_cell [OF assms] colour_index_def)

theorem sentinel_mapping_witness:
  "colour_pass (uniform_grid (- 32768)) ! 0 ! 0 = 0 \<and>
   colour_pass (uniform_grid (- 1000)) ! 179 ! 359 = 1"
  using sentinel_mapping [of 0 "uniform_grid (- 32768)" 0]
    sentinel_mapping [of 179 "uniform_grid (- 1000)" 359]
  by (simp add: uniform_grid_def)

text \<open>
  Claim C5 says that every raw value of at most \<open>-500\<close> is mapped to index 2.  The ice
  sentinel \<open>-1000\<close> is such a value and is mapped to index 1.
\<close>

theorem clamp_boundary_counterexample:
  "sint (uniform_grid (- 1000) ! 0 ! 0) \<le> - 500 \<and>
   colour_pass (uniform_grid (- 1000)) ! 0 ! 0 = 1 \<and>
   colour_pass (uniform_grid (- 1000)) ! 0 ! 0 \<noteq> 2"
  by (simp add: colour_pass_cell colour_index_def uniform_grid_def)

text \<open>
  Claim C5, amended: in every cell whose raw value is not a sentinel, a raw value of at
  most \<open>-500\<close> is mapped to index 2 and a raw value of at least \<open>3000\<close> to index 255.
\<close>

theorem clamp_boundary:
  assumes "r < length na" and "c < length (na ! r)"
    and "sint (na ! r ! c) \<noteq> - 32768" and "sint (na ! r ! c) \<noteq> - 1000"
  shows "(sint (na ! r ! c) \<le> - 500 \<longrightarrow> colour_pass na ! r ! c = 2) \<and>
         (3000 \<le> sint (na ! r ! c) \<longrightarrow> colour_pass na ! r ! c = 255)"
proof -
  have u: "uint (colour_pass na ! r ! c) = spec_index (sint (na ! r ! c))"
    using colour_index_gradient [OF assms(3,4)] by (simp add: colour_pass_cell [OF assms(1,2)])
  have "colour_pass na ! r ! c = 2" if "sint (na ! r ! c) \<le> - 500"
    using u spec_index_low [OF that] by (simp add: word_uint_eq_iff)
  moreover have "colour_pass na ! r ! c = 255" if "3000 \<le> sint (na ! r ! c)"
    using u spec_index_high [OF that] by (simp add: word_uint_eq_iff)
  ultimately show ?thesis by blast
qed

theorem clamp_boundary_witness:
  "colour_pass (uniform_grid (- 700)) ! 0 ! 0 = 2 \<and>
   colour_pass (uniform_grid 3000) ! 179 ! 359 = 255"
  using clamp_boundary [of 0 "uniform_grid (- 700)" 0]
    clamp_boundary [of 179 "uniform_grid 3000" 359]
  by (simp add: uniform_grid_def)

text \<open>
  Claim C6. For two cells (of the same grid or of two grids) with raw values that are not
  sentinels, the cell with the smaller or equal raw value gets the smaller or equal index.
\<close>

theorem gradient_monotone:
  assumes "r < length na" and "c < length (na ! r)"
    and "r' < length nb" and "c' < length (nb ! r')"
    and "sint (na ! r ! c) \<noteq> - 32768" and "sint (na ! r ! c) \<noteq> - 1000"
    and "sint (nb ! r' ! c') \<noteq> - 32768" and "sint (nb ! r' ! c') \<noteq> - 1000"
    and "sint (na ! r ! c) \<le> sint (nb ! r' ! c')"
  shows "colour_pass na ! r ! c \<le> colour_pass nb ! r' ! c'"
proof -
  have "uint (colour_pass na ! r ! c) = spec_index (sint (na ! r ! c))"
    using colour_index_gradient [OF assms(5,6)] by (simp add: colour_pass_cell [OF assms(1,2)])
  moreover have "uint (colour_pass nb ! r' ! c') = spec_index (sint (nb ! r' ! c'))"
    using colour_index_gradient [OF assms(7,8)] by (simp add: colour_pass_cell [OF assms(3,4)])
  ultimately show ?thesis
    using spec_index_mono [OF assms(9)] by (simp add: word_le_def)
qed

theorem gradient_monotone_witness:
  "colour_pass (uniform_grid (- 1001)) ! 0 ! 0 \<le> colour_pass (uniform_grid 2000) ! 17 ! 200"
  using gradient_monotone [of 0 "uniform_grid (- 1001)" 0 17 "uniform_grid 2000" 200]
  by (simp add: uniform_grid_def)

section \<open>Properties of the dictionary\<close>

lemma dict_get_set_same: "dict_get (dict_set d k v) k = Some v"
  by (induction d) (auto simp: dict_get_def)

lemma dict_get_set_other: "k' \<noteq> k \<Longrightarrow> dict_get (dict_set d k v) k' = dict_get d k'"
  by (induction d) (auto simp: dict_get_def)

lemma dict_set_set: "dict_set (dict_set d k v) k v' = dict_set d k v'"
  by (induction d) auto

lemma dict_set_same_value: "dict_get d k = Some v \<Longrightarrow> dict_set d k v = d"
  by (induction d) (auto simp: dict_get_def split: if_splits)

lemma dict_set_keys:
  "map fst (dict_set d k v) = (if k \<in> set (map fst d) then map fst d else map fst d @ [k])"
  by (induction d) (force simp: image_iff)+

section \<open>Properties of the parser\<close>

lemma store_cell_ok:
  assumes "var_M st = Some m" and "dict_get (months st) m = Some na" and "var_r st = Some r"
    and "r < length na" and "c < length (na ! r)"
  shows "store_cell st c v =
           Inr (st\<lparr>months := dict_set (months st) m (na[r := (na ! r)[c := word_of_int v]])\<rparr>)"
  using assms by (simp add: store_cell_def)

lemma data_cells_ok:
  assumes "var_M st = Some m" and "dict_get (months st) m = Some na" and "var_r st = Some r"
    and "r < length na"
    and "\<forall>c\<in>set cs. c < length (na ! r) \<and> py_int (field line c) \<noteq> None"
  shows "data_cells line cs st =
           Inr (st\<lparr>months := dict_set (months st) m
                  (na[r := foldl (\<lambda>row c. row[c := cell_of line c]) (na ! r) cs])\<rparr>)"
  using assms
proof (induction cs arbitrary: st na)
  case Nil
  then show ?case by (simp add: dict_set_same_value)
next
  case (Cons c cs)
  from Cons.prems(5) obtain v where v: "py_int (field line c) = Some v" and c: "c < length (na ! r)"
    by auto
  define na1 where "na1 = na[r := (na ! r)[c := word_of_int v]]"
  define st1 where "st1 = st\<lparr>months := dict_set (months st) m na1\<rparr>"
  have sc: "store_cell st c v = Inr st1"
    unfolding st1_def na1_def using Cons.prems(1-4) c by (rule store_cell_ok)
  have p1: "var_M st1 = Some m" "var_r st1 = Some r"
    using Cons.prems by (simp_all add: st1_def)
  have p2: "dict_get (months st1) m = Some na1"
    by (simp add: st1_def dict_get_set_same)
  have p3: "r < length na1"
    using Cons.prems(4) by (simp add: na1_def)
  have row1: "na1 ! r = (na ! r)[c := word_of_int v]"
    using Cons.prems(4) by (simp add: na1_def)
  have p4: "\<forall>c'\<in>set cs. c' < length (na1 ! r) \<and> py_int (field line c') \<noteq> None"
    using Cons.prems(5) by (simp add: row1)
  have "data_cells line (c # cs) st = data_cells line cs st1"
    using v sc by (simp add: field_def)
  also have "\<dots> = Inr (st1\<lparr>months := dict_set (months st1) m
                  (na1[r := foldl (\<lambda>row c. row[c := cell_of line c]) (na1 ! r) cs])\<rparr>)"
    using p1(1) p2 p1(2) p3 p4 by (rule Cons.IH)
  also have "\<dots> = Inr (st\<lparr>months := dict_set (months st) m
                  (na[r := foldl (\<lambda>row c. row[c := cell_of line c]) (na ! r) (c # cs)])\<rparr>)"
    using v Cons.prems(4) by (simp add: st1_def dict_set_set na1_def cell_of_def)
  finally show ?case .
qed

lemma foldl_update_upt:
  "n \<le> length row \<Longrightarrow>
   foldl (\<lambda>row c. row[c := f c]) row [0..<n] = map f [0..<n] @ drop n row"
proof (induction n)
  case 0
  then show ?case by simp
next
  case (Suc n)
  then have n: "n < length row" by simp
  have "(map f [0..<n] @ drop n row)[n := f n] = map f [0..<n] @ (drop n row)[0 := f n]"
    by (simp add: list_update_append)
  also have "(drop n row)[0 := f n] = f n # drop (Suc n) row"
    using n by (simp flip: Cons_nth_drop_Suc)
  finally show ?case
    using Suc by simp
qed

lemma row_of_length: "length (row_of line) = 360"
  by (simp add: row_of_def)

lemma good_line_fields:
  "good_line line \<Longrightarrow> c < 360 \<Longrightarrow> py_int (field line c) \<noteq> None"
  by (simp add: good_line_def list_all_iff)

lemma data_line_ok:
  assumes "var_M st = Some m" and "dict_get (months st) m = Some na" and "var_r st = Some r"
    and "r < length na" and "length (na ! r) = 360" and "good_line line"
  shows "data_line line st =
           Inr (st\<lparr>months := dict_set (months st) m (na[r := row_of line]),
                   var_r := Some (r + 1)\<rparr>)"
proof -
  have "\<forall>c\<in>set [0..<360]. c < length (na ! r) \<and> py_int (field line c) \<noteq> None"
    using assms(5) good_line_fields [OF assms(6)] by simp
  from data_cells_ok [OF assms(1-4) this]
  have "data_cells line [0..<360] st =
          Inr (st\<lparr>months := dict_set (months st) m
                 (na[r := foldl (\<lambda>row c. row[c := cell_of line c]) (na ! r) [0..<360]])\<rparr>)" .
  moreover have "foldl (\<lambda>row c. row[c := cell_of line c]) (na ! r) [0..<360] = row_of line"
    using foldl_update_upt [of 360 "na ! r" "cell_of line"] assms(5) by (simp add: row_of_def)
  ultimately show ?thesis
    using assms(3) by (simp add: data_line_def)
qed


lemma header_line_ok:
  assumes "py_split h = D # M # Y # extra"
  shows "header_line h st =
           Inr (st\<lparr>months := dict_set (months st) M (np_zeros 180 360),
                   var_M := Some M, var_Y := Some Y, var_r := Some 0\<rparr>)"
  by (simp add: header_line_def assms)

lemma update_row_take:
  assumes "r < length na"
  shows "take (Suc r) (na[r := x]) = take r na @ [x]"
  using assms by (simp add: take_Suc_conv_app_nth)

lemma parse_block:
  assumes "var_M st = Some m" and "dict_get (months st) m = Some na" and "var_r st = Some r"
    and "r + length ls \<le> length na" and "\<forall>row\<in>set na. length row = 360"
    and "\<forall>l\<in>set ls. good_line l"
  shows "parse_loop (ls @ rest) st =
           parse_loop rest
             (st\<lparr>months := dict_set (months st) m
                      (take r na @ map row_of ls @ drop (r + length ls) na),
                 var_r := Some (r + length ls)\<rparr>)"
  using assms
proof (induction ls arbitrary: st na r)
  case Nil
  have "st\<lparr>months := months st, var_r := Some r\<rparr> = st"
    using Nil.prems(3) by (cases st) simp
  then show ?case
    using Nil.prems(2) by (simp add: dict_set_same_value)
next
  case (Cons l ls)
  from Cons.prems(6) have gl: "good_line l" and gls: "\<forall>l\<in>set ls. good_line l"
    by simp_all
  from gl have "50 \<le> length l"
    by (simp add: good_line_def)
  then have len: "\<not> length l < 1" "\<not> length l < 50"
    by linarith+
  from Cons.prems(4) have r: "r < length na" by simp
  with Cons.prems(5) have row: "length (na ! r) = 360" by simp
  define na1 where "na1 = na[r := row_of l]"
  define st1 where "st1 = st\<lparr>months := dict_set (months st) m na1, var_r := Some (r + 1)\<rparr>"
  have dl: "data_line l st = Inr st1"
    unfolding st1_def na1_def using Cons.prems(1-3) r row gl by (rule data_line_ok)
  have p1: "var_M st1 = Some m" using Cons.prems(1) by (simp add: st1_def)
  have p2: "dict_get (months st1) m = Some na1" by (simp add: st1_def dict_get_set_same)
  have p3: "var_r st1 = Some (r + 1)" by (simp add: st1_def)
  have p4: "r + 1 + length ls \<le> length na1" using Cons.prems(4) by (simp add: na1_def)
  have p5: "\<forall>row\<in>set na1. length row = 360"
  proof
    fix x assume "x \<in> set na1"
    then have "x \<in> insert (row_of l) (set na)"
      unfolding na1_def using set_update_subset_insert by fastforce
    then show "length x = 360"
      using Cons.prems(5) by (auto simp: row_of_length)
  qed
  have t: "take (r + 1) na1 = take r na @ [row_of l]"
    using update_row_take [OF r] by (simp add: na1_def)
  have d: "drop (r + 1 + length ls) na1 = drop (r + length (l # ls)) na"
    by (simp add: na1_def)
  have "parse_loop ((l # ls) @ rest) st = parse_loop (ls @ rest) st1"
    using len dl by simp
  also have "\<dots> = parse_loop rest
             (st1\<lparr>months := dict_set (months st1) m
                      (take (r + 1) na1 @ map row_of ls @ drop (r + 1 + length ls) na1),
                 var_r := Some (r + 1 + length ls)\<rparr>)"
    using p1 p2 p3 p4 p5 gls by (rule Cons.IH)
  also have "st1\<lparr>months := dict_set (months st1) m
                      (take (r + 1) na1 @ map row_of ls @ drop (r + 1 + length ls) na1),
                 var_r := Some (r + 1 + length ls)\<rparr>
           = st\<lparr>months := dict_set (months st) m
                      (take r na @ map row_of (l # ls) @ drop (r + length (l # ls)) na),
                 var_r := Some (r + length (l # ls))\<rparr>"
    unfolding t d by (simp add: st1_def dict_set_set)
  finally show ?case .
qed

lemma py_split_Nil: "py_split [] = []"
  by (simp add: py_split_def)

lemma parse_period:
  assumes "py_split h = D # M # Y # extra" and "length h < 50"
    and "length ls \<le> 180" and "\<forall>l\<in>set ls. good_line l"
  shows "parse_loop (h # ls @ rest) st =
           parse_loop rest
             \<lparr>months = dict_set (months st) M (block_grid ls),
              var_M = Some M, var_Y = Some Y, var_r = Some (length ls)\<rparr>"
proof -
  have h: "\<not> length h < 1"
    using assms(1) py_split_Nil by (cases h) auto
  define st0 where "st0 = st\<lparr>months := dict_set (months st) M (np_zeros 180 360),
                   var_M := Some M, var_Y := Some Y, var_r := Some 0\<rparr>"
  have hl: "header_line h st = Inr st0"
    unfolding st0_def using assms(1) by (rule header_line_ok)
  have p1: "var_M st0 = Some M" by (simp add: st0_def)
  have p2: "dict_get (months st0) M = Some (np_zeros 180 360)"
    by (simp add: st0_def dict_get_set_same)
  have p3: "var_r st0 = Some 0" by (simp add: st0_def)
  have p4: "0 + length ls \<le> length (np_zeros 180 360)"
    using assms(3) by (simp add: np_zeros_def)
  have p5: "\<forall>row\<in>set (np_zeros 180 360). length row = 360"
    by (simp add: np_zeros_def)
  have "parse_loop (h # ls @ rest) st = parse_loop (ls @ rest) st0"
    using h assms(2) hl by simp
  also have "\<dots> = parse_loop rest
             (st0\<lparr>months := dict_set (months st0) M
                      (take 0 (np_zeros 180 360) @ map row_of ls
                         @ drop (0 + length ls) (np_zeros 180 360)),
                 var_r := Some (0 + length ls)\<rparr>)"
    using p1 p2 p3 p4 p5 assms(4) by (rule parse_block)
  also have "st0\<lparr>months := dict_set (months st0) M
                      (take 0 (np_zeros 180 360) @ map row_of ls
                         @ drop (0 + length ls) (np_zeros 180 360)),
                 var_r := Some (0 + length ls)\<rparr>
           = \<lparr>months = dict_set (months st) M (block_grid ls),
              var_M = Some M, var_Y = Some Y, var_r = Some (length ls)\<rparr>"
    by (simp add: st0_def dict_set_set block_grid_def np_zeros_def)
  finally show ?thesis .
qed


section \<open>Errors of the parser\<close>

lemma data_cells_bad_field:
  assumes "c \<in> set cs" and "py_int (field line c) = None"
  shows "\<exists>e. data_cells line cs st = Inl e"
  using assms
proof (induction cs arbitrary: st)
  case Nil
  then show ?case by simp
next
  case (Cons a cs)
  show ?case
  proof (cases "py_int (py_slice line (6 * a) (6 * a + 6))")
    case None
    then show ?thesis by simp
  next
    case (Some v)
    with Cons.prems have c: "c \<in> set cs"
      by (auto simp: field_def)
    show ?thesis
    proof (cases "store_cell st a v")
      case (Inl e)
      with Some show ?thesis by simp
    next
      case (Inr st')
      with Some Cons.IH [OF c Cons.prems(2), of st'] show ?thesis by simp
    qed
  qed
qed

lemma data_line_bad_field:
  assumes "c < 360" and "py_int (field line c) = None"
  shows "\<exists>e. data_line line st = Inl e"
proof -
  from assms(1) have "c \<in> set [0..<360]" by simp
  from data_cells_bad_field [OF this assms(2)] obtain e
    where "data_cells line [0..<360] st = Inl e" by blast
  then show ?thesis by (simp add: data_line_def)
qed

lemma py_int_Nil: "py_int [] = None"
  by (simp add: py_int_def py_strip_def)

lemma short_line_last_field:
  assumes "length line \<le> 2154"
  shows "py_int (field line 359) = None"
  using assms by (simp add: field_def py_slice_def py_int_Nil)

lemma data_line_unbound:
  assumes "var_M st = None"
  shows "\<exists>e. data_line line st = Inl e"
proof -
  have e: "[0..<360] = 0 # [Suc 0..<360]"
    by (rule upt_conv_Cons) simp
  have "\<exists>e. data_cells line (0 # [Suc 0..<360]) st = Inl e"
  proof (cases "py_int (py_slice line (6 * 0) (6 * 0 + 6))")
    case None
    then show ?thesis by (simp only: data_cells.simps option.case) blast
  next
    case (Some v)
    moreover have "store_cell st 0 v = Inl NameError"
      using assms by (simp add: store_cell_def)
    ultimately show ?thesis by (simp only: data_cells.simps option.case sum.case) blast
  qed
  then obtain e' where "data_cells line [0..<360] st = Inl e'"
    unfolding e by blast
  then show ?thesis by (simp add: data_line_def)
qed

lemma parse_loop_bad_line:
  assumes "l \<in> set ls" and "[] \<notin> set ls" and "50 \<le> length l"
    and "py_int (field l c) = None" and "c < 360"
  shows "\<exists>e. parse_loop ls st = Inl e"
  using assms(1,2)
proof (induction ls arbitrary: st)
  case Nil
  then show ?case by simp
next
  case (Cons a ls)
  from Cons.prems(2) have a: "\<not> length a < 1" and ls: "[] \<notin> set ls"
    by (cases a; simp)+
  show ?case
  proof (cases "a = l")
    case True
    from data_line_bad_field [OF assms(5,4), of st] obtain e where "data_line l st = Inl e"
      by blast
    moreover from assms(3) have "\<not> length l < 1" "\<not> length l < 50"
      by linarith+
    ultimately show ?thesis
      using True by simp
  next
    case False
    with Cons.prems(1) have l: "l \<in> set ls" by simp
    show ?thesis
    proof (cases "length a < 50")
      case True
      show ?thesis
      proof (cases "header_line a st")
        case (Inl e)
        with True a show ?thesis by simp
      next
        case (Inr st')
        with True a Cons.IH [OF l ls, of st'] show ?thesis by simp
      qed
    next
      case False
      show ?thesis
      proof (cases "data_line a st")
        case (Inl e)
        with False a show ?thesis by simp
      next
        case (Inr st')
        with False a Cons.IH [OF l ls, of st'] show ?thesis by simp
      qed
    qed
  qed
qed

lemma readlines_nonempty: "[] \<notin> set (readlines cur s)"
  by (induction s arbitrary: cur) auto

lemma file_lines_nonempty: "[] \<notin> set (file_lines text)"
  by (simp add: file_lines_def readlines_nonempty)

lemma main_error: "parse_file text = Inl e \<Longrightarrow> main text = Inl e"
  by (simp add: main_def)


section \<open>What the parsing loop keeps\<close>

lemma split_from_nonempty: "[] \<notin> set (split_from tok s)"
  by (induction s arbitrary: tok) auto

lemma py_split_nonempty: "[] \<notin> set (py_split s)"
  by (simp add: py_split_def split_from_nonempty)

lemma dict_set_present:
  assumes "dict_get d k = Some v"
  shows "map fst (dict_set d k v') = map fst d"
proof -
  from assms have "k \<in> set (map fst d)"
    by (auto simp: dict_get_def dest: map_of_SomeD intro: rev_image_eqI)
  then show ?thesis by (simp add: dict_set_keys)
qed

lemma store_cell_frame:
  assumes "store_cell st c v = Inr st'"
  shows "var_M st' = var_M st \<and> var_Y st' = var_Y st \<and> var_r st' = var_r st \<and>
         map fst (months st') = map fst (months st)"
  using assms
  by (auto simp: store_cell_def dict_set_present split: option.splits if_splits)

lemma data_cells_frame:
  assumes "data_cells line cs st = Inr st'"
  shows "var_M st' = var_M st \<and> var_Y st' = var_Y st \<and> var_r st' = var_r st \<and>
         map fst (months st') = map fst (months st)"
  using assms
proof (induction cs arbitrary: st)
  case Nil
  then show ?case by simp
next
  case (Cons c cs)
  from Cons.prems obtain v st1 where "store_cell st c v = Inr st1"
    and "data_cells line cs st1 = Inr st'"
    by (auto split: option.splits sum.splits)
  with Cons.IH [of st1] store_cell_frame [of st c v st1] show ?case by simp
qed

lemma data_line_frame:
  assumes "data_line line st = Inr st'"
  shows "var_M st' = var_M st \<and> var_Y st' = var_Y st \<and>
         map fst (months st') = map fst (months st)"
proof -
  from assms obtain st1 r where "data_cells line [0..<360] st = Inr st1"
    and "st' = st1\<lparr>var_r := Some (r + 1)\<rparr>"
    by (auto simp: data_line_def split: sum.splits option.splits)
  with data_cells_frame [of line "[0..<360]" st st1] show ?thesis by simp
qed

lemma header_line_frame:
  assumes "header_line h st = Inr st'"
  shows "var_Y st' = year_of h \<and> year_of h \<noteq> None \<and> var_M st' \<noteq> None \<and>
         months st' \<noteq> [] \<and>
         ([] \<notin> set (map fst (months st)) \<longrightarrow> [] \<notin> set (map fst (months st')))"
proof -
  from assms obtain D M Y extra where sp: "py_split h = D # M # Y # extra"
    and st': "st' = st\<lparr>months := dict_set (months st) M (np_zeros 180 360),
                   var_M := Some M, var_Y := Some Y, var_r := Some 0\<rparr>"
    by (auto simp: header_line_def split: list.splits)
  from py_split_nonempty [of h] sp have "M \<noteq> []" by auto
  moreover have "dict_set (months st) M (np_zeros 180 360) \<noteq> []"
    by (cases "months st") (auto split: if_splits)
  ultimately show ?thesis
    by (auto simp: st' year_of_def sp dict_set_keys)
qed

lemma last_year_Cons_header:
  assumes "is_header l"
  shows "last_year (l # ls) = (if filter is_header ls = [] then year_of l else last_year ls)"
  using assms by (cases "rev (filter is_header ls)") (simp_all add: last_year_def)

lemma last_year_Cons_data:
  assumes "\<not> is_header l"
  shows "last_year (l # ls) = last_year ls"
  using assms by (simp add: last_year_def)

lemma parse_loop_year:
  assumes "parse_loop ls st = Inr st'" and "[] \<notin> set ls"
  shows "(filter is_header ls = [] \<longrightarrow> var_Y st' = var_Y st) \<and>
         (filter is_header ls \<noteq> [] \<longrightarrow> var_Y st' = last_year ls \<and> last_year ls \<noteq> None)"
  using assms
proof (induction ls arbitrary: st)
  case Nil
  then show ?case by simp
next
  case (Cons l ls)
  from Cons.prems(2) have l: "\<not> length l < 1" and ls: "[] \<notin> set ls"
    by (cases l; simp)+
  show ?case
  proof (cases "length l < 50")
    case True
    then have h: "is_header l" by (simp add: is_header_def)
    from Cons.prems(1) l True obtain st1 where st1: "header_line l st = Inr st1"
      and rest: "parse_loop ls st1 = Inr st'"
      by (auto split: sum.splits)
    from header_line_frame [OF st1] have y: "var_Y st1 = year_of l" "year_of l \<noteq> None"
      by simp_all
    from Cons.IH [OF rest ls] y show ?thesis
      by (auto simp: h last_year_Cons_header [OF h])
  next
    case False
    then have h: "\<not> is_header l" by (simp add: is_header_def)
    from Cons.prems(1) l False obtain st1 where st1: "data_line l st = Inr st1"
      and rest: "parse_loop ls st1 = Inr st'"
      by (auto split: sum.splits)
    from data_line_frame [OF st1] have "var_Y st1 = var_Y st" by simp
    with Cons.IH [OF rest ls] show ?thesis
      by (simp add: h last_year_Cons_data [OF h])
  qed
qed

lemma parse_loop_keys:
  assumes "parse_loop ls st = Inr st'" and "[] \<notin> set (map fst (months st))"
  shows "[] \<notin> set (map fst (months st'))"
  using assms
proof (induction ls arbitrary: st)
  case Nil
  then show ?case by simp
next
  case (Cons l ls)
  show ?case
  proof (cases "length l < 1")
    case True
    with Cons.prems show ?thesis by simp
  next
    case False
    show ?thesis
    proof (cases "length l < 50")
      case True
      from Cons.prems(1) False True obtain st1 where st1: "header_line l st = Inr st1"
        and rest: "parse_loop ls st1 = Inr st'"
        by (auto split: sum.splits)
      from header_line_frame [OF st1] Cons.prems(2) have "[] \<notin> set (map fst (months st1))"
        by simp
      with rest show ?thesis by (rule Cons.IH)
    next
      case nh: False
      from Cons.prems(1) False nh obtain st1 where st1: "data_line l st = Inr st1"
        and rest: "parse_loop ls st1 = Inr st'"
        by (auto split: sum.splits)
      from data_line_frame [OF st1] Cons.prems(2) have "[] \<notin> set (map fst (months st1))"
        by simp
      with rest show ?thesis by (rule Cons.IH)
    qed
  qed
qed

lemma parse_loop_no_header:
  assumes "parse_loop ls st = Inr st'" and "[] \<notin> set ls" and "var_M st = None"
    and "filter is_header ls = []"
  shows "ls = []"
proof (cases ls)
  case Nil
  then show ?thesis .
next
  case (Cons l rest)
  with assms(2,4) have l: "\<not> length l < 1" "\<not> length l < 50"
    by (cases l; simp add: is_header_def split: if_splits)+
  from data_line_unbound [OF assms(3), of l] obtain e where "data_line l st = Inl e"
    by blast
  with assms(1) l show ?thesis
    by (simp add: Cons)
qed

section \<open>Properties of the image loop\<close>

lemma pad_month_zero_pad2:
  assumes "m \<noteq> []"
  shows "pad_month m = zero_pad2 m"
proof (cases "length m < 2")
  case True
  with assms have "length m = 1" by (cases m) auto
  then have "2 - length m = Suc 0" by simp
  with True show ?thesis by (simp add: pad_month_def zero_pad2_def)
next
  case False
  then show ?thesis by (simp add: pad_month_def zero_pad2_def)
qed

lemma render_loop_names:
  assumes "[] \<notin> set (map fst ms)"
  shows "\<exists>writes. render_loop ms (Some Y) = Inr writes \<and>
           map fst writes = concat (map (\<lambda>m. output_names m Y) (map fst ms))"
  using assms
proof (induction ms)
  case Nil
  then show ?case by simp
next
  case (Cons a ms)
  obtain m na where a: "a = (m, na)" by (cases a)
  from Cons.prems a have m: "m \<noteq> []" and rest: "[] \<notin> set (map fst ms)"
    by auto
  from Cons.IH [OF rest] obtain writes where w: "render_loop ms (Some Y) = Inr writes"
    and n: "map fst writes = concat (map (\<lambda>m. output_names m Y) (map fst ms))"
    by blast
  show ?case
    using w n by (simp add: a Let_def output_names_def pad_month_zero_pad2 [OF m])
qed


section \<open>Properties of the sample files\<close>

lemma readlines_append:
  "CHR 0x0A \<notin> set l \<Longrightarrow> readlines cur (l @ s) = readlines (cur @ l) s"
  by (induction l arbitrary: cur) auto

lemma file_lines_line:
  assumes "CHR 0x0A \<notin> set l"
  shows "file_lines (l @ CHR 0x0A # s) = (l @ [CHR 0x0A]) # file_lines s"
  using assms by (simp add: file_lines_def readlines_append)

lemma file_lines_last_line:
  assumes "CHR 0x0A \<notin> set l" and "l \<noteq> []"
  shows "file_lines l = [l]"
  using assms readlines_append [of l "[]" "[]"] by (simp add: file_lines_def)

lemma set_concat_replicate: "set (concat (replicate n w)) \<subseteq> set w"
  by (induction n) auto

lemma file_lines_uniform:
  assumes "CHR 0x0A \<notin> set w"
  shows "file_lines (concat (replicate n (uniform_line w)) @ s)
           = replicate n (uniform_line w) @ file_lines s"
proof (induction n)
  case 0
  then show ?case by simp
next
  case (Suc n)
  have nl: "CHR 0x0A \<notin> set (concat (replicate 360 w))"
    using assms set_concat_replicate [of 360 w] by blast
  have "concat (replicate (Suc n) (uniform_line w)) @ s
          = concat (replicate 360 w) @ CHR 0x0A # (concat (replicate n (uniform_line w)) @ s)"
    by (simp add: uniform_line_def)
  then show ?case
    using file_lines_line [OF nl] Suc by (simp add: uniform_line_def)
qed

lemma file_lines_period:
  assumes "CHR 0x0A \<notin> set h" and "CHR 0x0A \<notin> set w"
  shows "file_lines (period_text h w @ s)
           = (h @ [CHR 0x0A]) # replicate 180 (uniform_line w) @ file_lines s"
proof -
  have "period_text h w @ s = h @ CHR 0x0A # (concat (replicate 180 (uniform_line w)) @ s)"
    by (simp add: period_text_def)
  then show ?thesis
    using file_lines_line [OF assms(1)] file_lines_uniform [OF assms(2)] by simp
qed

lemma file_lines_Nil: "file_lines [] = []"
  by (simp add: file_lines_def)

lemma length_concat_replicate: "length (concat (replicate n w)) = n * length w"
  by (induction n) simp_all

lemma drop_concat_replicate:
  assumes "c \<le> n"
  shows "drop (c * length w) (concat (replicate n w) @ t) = concat (replicate (n - c) w) @ t"
proof -
  have "replicate n w = replicate c w @ replicate (n - c) w"
    using assms by (simp flip: replicate_add)
  then have "concat (replicate n w) @ t
               = concat (replicate c w) @ (concat (replicate (n - c) w) @ t)"
    by simp
  then show ?thesis
    by (simp add: length_concat_replicate)
qed

lemma field_uniform:
  assumes "length w = 6" and "c < n"
  shows "field (concat (replicate n w) @ t) c = w"
proof -
  obtain k where k: "n - c = Suc k"
    using assms(2) by (cases "n - c") simp_all
  have "drop (6 * c) (concat (replicate n w) @ t) = concat (replicate (n - c) w) @ t"
    using drop_concat_replicate [of c n w t] assms by (simp add: mult.commute)
  then show ?thesis
    using assms(1) by (simp add: field_def py_slice_def k)
qed

lemma field_after_uniform:
  assumes "length w = 6"
  shows "field (concat (replicate n w) @ t) n = take 6 t"
proof -
  have "drop (6 * n) (concat (replicate n w) @ t) = concat (replicate (n - n) w) @ t"
    using drop_concat_replicate [of n n w t] assms by (simp add: mult.commute)
  then show ?thesis
    by (simp add: field_def py_slice_def)
qed

lemma good_uniform_line:
  assumes "length w = 6" and "py_int w = Some v"
  shows "good_line (uniform_line w)"
proof -
  have "length (uniform_line w) = 2161"
    using assms(1) by (simp add: uniform_line_def length_concat_replicate)
  moreover have "py_int (field (uniform_line w) c) \<noteq> None" if "c < 360" for c
    using field_uniform [OF assms(1) that] assms(2) by (simp add: uniform_line_def)
  ultimately show ?thesis
    by (simp add: good_line_def list_all_iff)
qed

lemma row_of_uniform_line:
  assumes "length w = 6" and "py_int w = Some v"
  shows "row_of (uniform_line w) = replicate 360 (word_of_int v)"
proof -
  have "cell_of (uniform_line w) c = word_of_int v" if "c < 360" for c
    using field_uniform [OF assms(1) that] assms(2) by (simp add: uniform_line_def cell_of_def)
  then have "map (cell_of (uniform_line w)) [0..<360] = map (\<lambda>_. word_of_int v) [0..<360]"
    by (intro map_cong) simp_all
  then show ?thesis
    by (simp add: row_of_def map_replicate_const del: upt_rec_numeral)
qed

lemma py_int_samples:
  "py_int ''  -180'' = Some (- 180)" "py_int ''  2150'' = Some 2150"
  "py_int '' 40000'' = Some 40000" "py_int ''     7'' = Some 7" "py_int ''    7'' = Some 7"
  by (simp_all add: py_int_def py_strip_def int_space_def is_digit_def digit_val_def)

lemma py_split_samples:
  "py_split (''1 01 1870'' @ [CHR 0x0A]) = [''1'', ''01'', ''1870'']"
  "py_split (''1 02 1871'' @ [CHR 0x0A]) = [''1'', ''02'', ''1871'']"
  "py_split (''1 01 1871'' @ [CHR 0x0A]) = [''1'', ''01'', ''1871'']"
  "py_split (''1 1 1870'' @ [CHR 0x0A]) = [''1'', ''1'', ''1870'']"
  by (simp_all add: py_split_def split_space_def)

section \<open>One period\<close>

lemma single_period:
  assumes "length h < 50" and "py_split h = D # M # Y # extra"
    and "length ls \<le> 180" and "\<forall>l\<in>set ls. good_line l"
  shows "parse_loop (h # ls) initial_state =
           Inr \<lparr>months = [(M, block_grid ls)], var_M = Some M, var_Y = Some Y,
                var_r = Some (length ls)\<rparr>"
  using parse_period [OF assms(2,1,3,4), of "[]" initial_state]
  by (simp add: initial_state_def)

lemma block_grid_shape:
  assumes "length ls \<le> 180"
  shows "length (block_grid ls) = 180"
    and "r < 180 \<Longrightarrow> length (block_grid ls ! r) = 360"
proof -
  show "length (block_grid ls) = 180"
    using assms by (simp add: block_grid_def)
  show "length (block_grid ls ! r) = 360" if "r < 180"
  proof (cases "r < length ls")
    case True
    then show ?thesis by (simp add: block_grid_def nth_append row_of_length)
  next
    case False
    with that show ?thesis by (simp add: block_grid_def nth_append)
  qed
qed

lemma block_grid_cell:
  assumes "r < length ls" and "c < 360"
  shows "block_grid ls ! r ! c = cell_of (ls ! r) c"
  using assms by (simp add: block_grid_def nth_append row_of_def del: upt_rec_numeral)

lemma sint16_of_int:
  assumes "- 32768 \<le> v" and "v \<le> 32767"
  shows "sint (word_of_int v :: int16) = v"
proof -
  have "signed_take_bit 15 v = v"
    using assms by (intro signed_take_bit_int_eq_self) simp_all
  then show ?thesis
    by (simp add: sint_sbintrunc')
qed

text \<open>
  Claim C1 says that the cell equals the integer of its field.  The array is of type
  \<open>int16\<close>: in a file whose fields are the six characters \<open>\<^verbatim>\<open> 40000\<close>\<close>, the field parses to
  \<open>40000\<close> and the cell holds \<open>-25536\<close>.
\<close>

theorem parser_exactness_counterexample:
  "file_lines overflow_file = (''1 01 1870'' @ [CHR 0x0A]) # replicate 180 (uniform_line '' 40000'') \<and>
   py_int (field (uniform_line '' 40000'') 0) = Some 40000 \<and>
   cell_at (parse_file overflow_file) ''01'' 0 0 = Some (- 25536)"
proof -
  let ?h = "''1 01 1870'' @ [CHR 0x0A]"
  let ?ls = "replicate 180 (uniform_line '' 40000'')"
  have fl: "file_lines overflow_file = ?h # ?ls"
    using file_lines_period [of "''1 01 1870''" "'' 40000''" "[]"]
    by (simp add: overflow_file_def file_lines_Nil)
  have good: "\<forall>l\<in>set ?ls. good_line l"
    using good_uniform_line [of "'' 40000''" 40000] by (simp add: py_int_samples)
  have "parse_loop (?h # ?ls) initial_state =
          Inr \<lparr>months = [(''01'', block_grid ?ls)], var_M = Some ''01'', var_Y = Some ''1870'',
               var_r = Some (length ?ls)\<rparr>"
    by (rule single_period [OF _ py_split_samples(1) _ good]) simp_all
  then have pf: "parse_file overflow_file =
          Inr \<lparr>months = [(''01'', block_grid ?ls)], var_M = Some ''01'', var_Y = Some ''1870'',
               var_r = Some (length ?ls)\<rparr>"
    by (simp only: parse_file_def fl)
  have f0: "field (uniform_line '' 40000'') 0 = '' 40000''"
    using field_uniform [of "'' 40000''" 0 360 "[CHR 0x0A]"] by (simp add: uniform_line_def)
  have cell: "block_grid ?ls ! 0 ! 0 = cell_of (uniform_line '' 40000'') 0"
    using block_grid_cell [of 0 ?ls 0] by simp
  have shape: "0 < length (block_grid ?ls)" "0 < length (block_grid ?ls ! 0)"
    using block_grid_shape(1) [of ?ls] block_grid_shape(2) [of ?ls 0] by simp_all
  have "sint (cell_of (uniform_line '' 40000'') 0) = - 25536"
    by (simp add: cell_of_def f0 py_int_samples)
  then have "cell_at (parse_file overflow_file) ''01'' 0 0 = Some (- 25536)"
    using shape cell by (simp add: pf cell_at_def dict_get_def)
  with fl f0 show ?thesis
    by (simp add: py_int_samples)
qed

text \<open>
  Claim C1, amended: for a file that consists of a header line (fewer than 50 characters,
  at least three tokens) followed by exactly 180 data lines whose 360 six-character
  fields are integer literals, the parser returns one grid, keyed by the month token of
  the header, with 180 rows of 360 cells; cell \<open>[r][c]\<close> holds the integer of field \<open>c\<close>
  of the \<open>r\<close>-th data line as a 16-bit value, and equals that integer whenever it lies
  between \<open>-32768\<close> and \<open>32767\<close>.
\<close>

theorem parser_exactness:
  assumes "file_lines text = header # ls"
    and "length header < 50" and "py_split header = D # M # Y # extra"
    and "length ls = 180" and "\<forall>l\<in>set ls. good_line l"
  shows "\<exists>g. parse_file text =
               Inr \<lparr>months = [(M, g)], var_M = Some M, var_Y = Some Y, var_r = Some 180\<rparr> \<and>
             length g = 180 \<and>
             (\<forall>r<180. length (g ! r) = 360 \<and>
                (\<forall>c<360. \<exists>v. py_int (field (ls ! r) c) = Some v \<and>
                    g ! r ! c = word_of_int v \<and>
                    (- 32768 \<le> v \<and> v \<le> 32767 \<longrightarrow> sint (g ! r ! c) = v)))"
proof -
  have le: "length ls \<le> 180" using assms(4) by simp
  have pf: "parse_file text =
          Inr \<lparr>months = [(M, block_grid ls)], var_M = Some M, var_Y = Some Y, var_r = Some 180\<rparr>"
    using single_period [OF assms(2,3) le assms(5)] by (simp add: parse_file_def assms(1,4))
  have cells: "\<exists>v. py_int (field (ls ! r) c) = Some v \<and>
                 block_grid ls ! r ! c = word_of_int v \<and>
                 (- 32768 \<le> v \<and> v \<le> 32767 \<longrightarrow> sint (block_grid ls ! r ! c) = v)"
    if "r < 180" "c < 360" for r c
  proof -
    from that(1) assms(4) have r: "r < length ls" by simp
    with assms(5) have "good_line (ls ! r)" by simp
    from good_line_fields [OF this that(2)] obtain v where v: "py_int (field (ls ! r) c) = Some v"
      by blast
    have "block_grid ls ! r ! c = word_of_int v"
      using block_grid_cell [OF r that(2)] v by (simp add: cell_of_def)
    with v show ?thesis
      by (auto simp: sint16_of_int)
  qed
  show ?thesis
    using pf block_grid_shape [OF le] cells by blast
qed

theorem parser_exactness_witness:
  "\<exists>g. parse_file plain_file =
          Inr \<lparr>months = [(''01'', g)], var_M = Some ''01'', var_Y = Some ''1870'',
               var_r = Some 180\<rparr> \<and>
        length g = 180 \<and> length (g ! 17) = 360 \<and> sint (g ! 17 ! 200) = - 180"
proof -
  let ?h = "''1 01 1870'' @ [CHR 0x0A]"
  let ?ls = "replicate 180 (uniform_line ''  -180'')"
  have fl: "file_lines plain_file = ?h # ?ls"
    using file_lines_period [of "''1 01 1870''" "''  -180''" "[]"]
    by (simp add: plain_file_def file_lines_Nil)
  have good: "\<forall>l\<in>set ?ls. good_line l"
    using good_uniform_line [of "''  -180''" "- 180"] by (simp add: py_int_samples)
  have h: "length ?h < 50" by simp
  have n: "length ?ls = 180" by simp
  from parser_exactness [OF fl h py_split_samples(1) n good]
  obtain g where pf: "parse_file plain_file =
          Inr \<lparr>months = [(''01'', g)], var_M = Some ''01'', var_Y = Some ''1870'',
               var_r = Some 180\<rparr>"
    and len: "length g = 180"
    and cells: "\<forall>r<180. length (g ! r) = 360 \<and>
                (\<forall>c<360. \<exists>v. py_int (field (?ls ! r) c) = Some v \<and>
                    g ! r ! c = word_of_int v \<and>
                    (- 32768 \<le> v \<and> v \<le> 32767 \<longrightarrow> sint (g ! r ! c) = v))"
    by blast
  have f: "field (uniform_line ''  -180'') 200 = ''  -180''"
    using field_uniform [of "''  -180''" 200 360 "[CHR 0x0A]"] by (simp add: uniform_line_def)
  from cells have c17: "length (g ! 17) = 360 \<and>
                (\<forall>c<360. \<exists>v. py_int (field (?ls ! 17) c) = Some v \<and>
                    g ! 17 ! c = word_of_int v \<and>
                    (- 32768 \<le> v \<and> v \<le> 32767 \<longrightarrow> sint (g ! 17 ! c) = v))"
    by (rule allE [where x = 17]) simp
  then have row: "length (g ! 17) = 360" ..
  from c17 have "\<exists>v. py_int (field (?ls ! 17) 200) = Some v \<and>
                    g ! 17 ! 200 = word_of_int v \<and>
                    (- 32768 \<le> v \<and> v \<le> 32767 \<longrightarrow> sint (g ! 17 ! 200) = v)"
    by simp
  then have "sint (g ! 17 ! 200) = - 180"
    by (auto simp: f py_int_samples)
  with pf len row show ?thesis by blast
qed

section \<open>Malformed input\<close>

lemma file_lines_short_line_file:
  "file_lines short_line_file = [''1 01 1870'' @ [CHR 0x0A], short_line]"
proof -
  have "CHR 0x0A \<notin> set (concat (replicate 359 ''     7''))"
    using set_concat_replicate [of 359 "''     7''"] by auto
  then have nl: "CHR 0x0A \<notin> set short_line"
    by (simp add: short_line_def)
  have ne: "short_line \<noteq> []"
    by (simp add: short_line_def)
  have "short_line_file = ''1 01 1870'' @ CHR 0x0A # short_line"
    by (simp add: short_line_file_def)
  then show ?thesis
    using file_lines_line [of "''1 01 1870''" short_line] file_lines_last_line [OF nl ne]
    by simp
qed

lemma length_short_line: "length short_line = 2159"
  by (simp add: short_line_def length_concat_replicate)

lemma good_short_line: "good_line short_line"
proof -
  have "py_int (field short_line c) \<noteq> None" if "c < 360" for c
  proof (cases "c < 359")
    case True
    from field_uniform [of "''     7''" c 359 "''    7''"] True
    show ?thesis by (simp add: short_line_def py_int_samples)
  next
    case False
    with that have c: "c = 359" by simp
    from field_after_uniform [of "''     7''" 359 "''    7''"]
    show ?thesis by (simp add: c short_line_def py_int_samples)
  qed
  then show ?thesis
    by (simp add: good_line_def list_all_iff length_short_line)
qed

text \<open>
  Claim C7 says that a data line shorter than 2160 characters raises a parse error.
  A slice of a Python string never raises: in a file whose only data line has 2159
  characters, the last field is cut to five characters, is still an integer literal, and
  the line is accepted; the run writes its two files.
\<close>

theorem malformed_input_counterexample:
  "length (file_lines short_line_file ! 1) = 2159 \<and>
   50 \<le> length (file_lines short_line_file ! 1) \<and>
   parse_file short_line_file =
     Inr \<lparr>months = [(''01'', block_grid [short_line])], var_M = Some ''01'',
          var_Y = Some ''1870'', var_r = Some 1\<rparr> \<and>
   cell_at (parse_file short_line_file) ''01'' 0 359 = Some 7 \<and>
   \<not> isl (main short_line_file)"
proof -
  have pf: "parse_file short_line_file =
     Inr \<lparr>months = [(''01'', block_grid [short_line])], var_M = Some ''01'',
          var_Y = Some ''1870'', var_r = Some 1\<rparr>"
    using single_period [OF _ py_split_samples(1), of "[short_line]"] good_short_line
    by (simp add: parse_file_def file_lines_short_line_file)
  have f: "field short_line 359 = ''    7''"
    using field_after_uniform [of "''     7''" 359 "''    7''"] by (simp add: short_line_def)
  have "block_grid [short_line] ! 0 ! 359 = cell_of short_line 359"
    using block_grid_cell [of 0 "[short_line]" 359] by simp
  moreover have "length (block_grid [short_line]) = 180" "length (block_grid [short_line] ! 0) = 360"
    using block_grid_shape(1) [of "[short_line]"] block_grid_shape(2) [of "[short_line]" 0]
    by simp_all
  ultimately have cell: "cell_at (parse_file short_line_file) ''01'' 0 359 = Some 7"
    by (simp add: pf cell_at_def dict_get_def cell_of_def f py_int_samples)
  have "\<not> isl (main short_line_file)"
    by (simp add: main_def pf Let_def)
  with pf cell show ?thesis
    by (simp add: file_lines_short_line_file length_short_line)
qed

text \<open>
  Claim C7, amended: if a file contains a data line (a line of 50 or more characters)
  shorter than 2160 characters in which one of the 360 fields, cut at the end of the
  line, is not an integer literal, or a data line of at most 2154 characters (its last
  field is then empty), or a data line that no header line precedes, then parsing raises
  an error and the run writes nothing.
\<close>

theorem malformed_input:
  assumes "(\<exists>l\<in>set (file_lines text). 50 \<le> length l \<and> length l < 2160 \<and>
              (\<exists>c<360. py_int (field l c) = None)) \<or>
           (\<exists>l\<in>set (file_lines text). 50 \<le> length l \<and> length l \<le> 2154) \<or>
           (\<exists>i<length (file_lines text). 50 \<le> length (file_lines text ! i) \<and>
              (\<forall>j<i. \<not> is_header (file_lines text ! j)))"
  shows "\<exists>e. parse_file text = Inl e \<and> main text = Inl e"
proof -
  consider
    (field) "\<exists>l\<in>set (file_lines text). 50 \<le> length l \<and> length l < 2160 \<and>
              (\<exists>c<360. py_int (field l c) = None)"
  | (short) "\<exists>l\<in>set (file_lines text). 50 \<le> length l \<and> length l \<le> 2154"
  | (unbound) "\<exists>i<length (file_lines text). 50 \<le> length (file_lines text ! i) \<and>
              (\<forall>j<i. \<not> is_header (file_lines text ! j))"
    using assms by blast
  then have "\<exists>e. parse_file text = Inl e"
  proof cases
    case field
    then obtain l c where l: "l \<in> set (file_lines text)" "50 \<le> length l"
      and c: "c < 360" "py_int (field l c) = None"
      by blast
    from parse_loop_bad_line [OF l(1) file_lines_nonempty l(2) c(2,1)]
    show ?thesis by (simp add: parse_file_def)
  next
    case short
    then obtain l where l: "l \<in> set (file_lines text)" "50 \<le> length l" "length l \<le> 2154"
      by blast
    have "py_int (field l 359) = None"
      using l(3) by (rule short_line_last_field)
    from parse_loop_bad_line [OF l(1) file_lines_nonempty l(2) this]
    show ?thesis by (simp add: parse_file_def)
  next
    case unbound
    then obtain i where i: "i < length (file_lines text)" "50 \<le> length (file_lines text ! i)"
      "\<forall>j<i. \<not> is_header (file_lines text ! j)"
      by blast
    then obtain l rest where ls: "file_lines text = l # rest"
      by (cases "file_lines text") auto
    have "\<not> is_header l"
    proof (cases i)
      case 0
      with i(2) ls show ?thesis by (simp add: is_header_def)
    next
      case (Suc k)
      with i(3) ls show ?thesis by auto
    qed
    then have "\<not> length l < 50" by (simp add: is_header_def)
    then have len: "\<not> length l < 1" "\<not> length l < 50" by linarith+
    from data_line_unbound [of initial_state l] obtain e where "data_line l initial_state = Inl e"
      by (auto simp: initial_state_def)
    with len show ?thesis
      by (simp add: parse_file_def ls)
  qed
  then show ?thesis
    by (auto simp: main_error)
qed

lemma file_lines_truncated_file:
  "file_lines truncated_file = [''1 01 1870'' @ [CHR 0x0A], replicate 60 (CHR ''7'')]"
proof -
  have "truncated_file = ''1 01 1870'' @ CHR 0x0A # replicate 60 (CHR ''7'')"
    by (simp add: truncated_file_def)
  moreover have "file_lines (replicate 60 (CHR ''7'')) = [replicate 60 (CHR ''7'')]"
    by (rule file_lines_last_line) simp_all
  ultimately show ?thesis
    using file_lines_line [of "''1 01 1870''" "replicate 60 (CHR ''7'')"] by simp
qed

lemma file_lines_headerless_file:
  "file_lines headerless_file = [uniform_line ''  -180'', ''1 01 1870'' @ [CHR 0x0A]]"
proof -
  have "CHR 0x0A \<notin> set (concat (replicate 360 ''  -180''))"
    using set_concat_replicate [of 360 "''  -180''"] by auto
  from file_lines_line [OF this, of "''1 01 1870'' @ [CHR 0x0A]"]
    file_lines_line [of "''1 01 1870''" "[]"]
  show ?thesis
    by (simp add: headerless_file_def uniform_line_def file_lines_Nil)
qed

lemma file_lines_cut_line_file:
  "file_lines cut_line_file = [''1 01 1870'' @ [CHR 0x0A], cut_line]"
proof -
  have nl: "CHR 0x0A \<notin> set (concat (replicate 359 ''     7''))"
    using set_concat_replicate [of 359 "''     7''"] by auto
  have "cut_line_file
          = ''1 01 1870'' @ CHR 0x0A # (concat (replicate 359 ''     7'') @ CHR 0x0A # [])"
    by (simp add: cut_line_file_def cut_line_def)
  then show ?thesis
    using file_lines_line [of "''1 01 1870''" "concat (replicate 359 ''     7'') @ CHR 0x0A # []"]
      file_lines_line [OF nl, of "[]"]
    by (simp add: cut_line_def file_lines_Nil)
qed

lemma cut_line_facts:
  "length cut_line = 2155" "py_int (field cut_line 359) = None"
proof -
  show "length cut_line = 2155"
    by (simp add: cut_line_def length_concat_replicate)
  have "field cut_line 359 = [CHR 0x0A]"
    using field_after_uniform [of "''     7''" 359 "[CHR 0x0A]"] by (simp add: cut_line_def)
  then show "py_int (field cut_line 359) = None"
    by (simp add: py_int_def py_strip_def int_space_def)
qed

theorem malformed_input_witness:
  "(\<exists>e. parse_file cut_line_file = Inl e \<and> main cut_line_file = Inl e) \<and>
   (\<exists>e. parse_file truncated_file = Inl e \<and> main truncated_file = Inl e) \<and>
   (\<exists>e. parse_file headerless_file = Inl e \<and> main headerless_file = Inl e)"
proof (intro conjI)
  have "cut_line \<in> set (file_lines cut_line_file) \<and> 50 \<le> length cut_line \<and>
      length cut_line < 2160 \<and> (359::nat) < 360 \<and> py_int (field cut_line 359) = None"
    by (simp add: file_lines_cut_line_file cut_line_facts)
  then have "\<exists>l\<in>set (file_lines cut_line_file). 50 \<le> length l \<and> length l < 2160 \<and>
              (\<exists>c<360. py_int (field l c) = None)"
    by blast
  then show "\<exists>e. parse_file cut_line_file = Inl e \<and> main cut_line_file = Inl e"
    by (intro malformed_input disjI1)
  have "\<exists>l\<in>set (file_lines truncated_file). 50 \<le> length l \<and> length l \<le> 2154"
    by (simp add: file_lines_truncated_file)
  then show "\<exists>e. parse_file truncated_file = Inl e \<and> main truncated_file = Inl e"
    by (intro malformed_input disjI2 disjI1)
  have "length (uniform_line ''  -180'') = 2161"
    by (simp add: uniform_line_def length_concat_replicate)
  then have "0 < length (file_lines headerless_file) \<and>
      50 \<le> length (file_lines headerless_file ! 0) \<and>
      (\<forall>j<0. \<not> is_header (file_lines headerless_file ! j))"
    by (simp add: file_lines_headerless_file)
  then have "\<exists>i<length (file_lines headerless_file).
      50 \<le> length (file_lines headerless_file ! i) \<and>
      (\<forall>j<i. \<not> is_header (file_lines headerless_file ! j))"
    by blast
  then show "\<exists>e. parse_file headerless_file = Inl e \<and> main headerless_file = Inl e"
    by (intro malformed_input disjI2)
qed

section \<open>Several periods in one file\<close>

lemma two_periods:
  assumes "length h1 < 50" and "py_split h1 = D1 # M1 # Y1 # e1"
    and "length h2 < 50" and "py_split h2 = D2 # M2 # Y2 # e2"
    and "length ls1 \<le> 180" and "length ls2 \<le> 180"
    and "\<forall>l\<in>set ls1. good_line l" and "\<forall>l\<in>set ls2. good_line l"
  shows "parse_loop (h1 # ls1 @ h2 # ls2) initial_state =
           Inr \<lparr>months = dict_set [(M1, block_grid ls1)] M2 (block_grid ls2),
                var_M = Some M2, var_Y = Some Y2, var_r = Some (length ls2)\<rparr>"
proof -
  have "parse_loop (h1 # ls1 @ h2 # ls2) initial_state =
          parse_loop (h2 # ls2 @ [])
            \<lparr>months = dict_set (months initial_state) M1 (block_grid ls1),
             var_M = Some M1, var_Y = Some Y1, var_r = Some (length ls1)\<rparr>"
    using parse_period [OF assms(2,1,5,7), of "h2 # ls2" initial_state] by simp
  also have "\<dots> = parse_loop []
            \<lparr>months = dict_set [(M1, block_grid ls1)] M2 (block_grid ls2),
             var_M = Some M2, var_Y = Some Y2, var_r = Some (length ls2)\<rparr>"
    by (subst parse_period [OF assms(4,3,6,8)]) (simp add: initial_state_def)
  finally show ?thesis by simp
qed


lemma file_lines_two_periods:
  assumes "CHR 0x0A \<notin> set h1" and "CHR 0x0A \<notin> set w1"
    and "CHR 0x0A \<notin> set h2" and "CHR 0x0A \<notin> set w2"
  shows "file_lines (period_text h1 w1 @ period_text h2 w2) =
           (h1 @ [CHR 0x0A]) # replicate 180 (uniform_line w1) @
           (h2 @ [CHR 0x0A]) # replicate 180 (uniform_line w2)"
  using file_lines_period [OF assms(1,2), of "period_text h2 w2"]
    file_lines_period [OF assms(3,4), of "[]"]
  by (simp add: file_lines_Nil)

lemma good_samples:
  "\<forall>l\<in>set (replicate 180 (uniform_line ''  -180'')). good_line l"
  "\<forall>l\<in>set (replicate 180 (uniform_line ''  2150'')). good_line l"
  using good_uniform_line [of "''  -180''" "- 180"] good_uniform_line [of "''  2150''" 2150]
  by (simp_all add: py_int_samples)

lemma file_lines_samples:
  "file_lines two_year_file =
     (''1 01 1870'' @ [CHR 0x0A]) # replicate 180 (uniform_line ''  -180'') @
     (''1 02 1871'' @ [CHR 0x0A]) # replicate 180 (uniform_line ''  2150'')"
  "file_lines same_month_file =
     (''1 01 1870'' @ [CHR 0x0A]) # replicate 180 (uniform_line ''  -180'') @
     (''1 01 1871'' @ [CHR 0x0A]) # replicate 180 (uniform_line ''  2150'')"
  "file_lines padded_month_file =
     (''1 1 1870'' @ [CHR 0x0A]) # replicate 180 (uniform_line ''  -180'') @
     (''1 01 1870'' @ [CHR 0x0A]) # replicate 180 (uniform_line ''  2150'')"
  unfolding two_year_file_def same_month_file_def padded_month_file_def
  by (subst file_lines_two_periods; simp)+


section \<open>The names of the output files\<close>

lemma main_success:
  assumes "main text = Inr writes"
  obtains st where "parse_file text = Inr st" and "render_loop (months st) (var_Y st) = Inr writes"
  using assms by (auto simp: main_def split: sum.splits)

text \<open>
  Claim C9. When the run succeeds, the files are written in the order of the dictionary,
  two for each month key: their names are \<open>01-\<close>, the key padded with zeros to two
  characters, \<open>-\<close>, the year, and the suffix of the format; the year is the third token of
  the last header line of the file, for every month.  (A file without header line has no
  line at all, and nothing is written.)
\<close>

theorem output_naming:
  assumes "main text = Inr writes"
  shows "\<exists>st. parse_file text = Inr st \<and>
           ((months st = [] \<and> writes = []) \<or>
            (\<exists>Y. last_year (file_lines text) = Some Y \<and>
                 map fst writes = concat (map (\<lambda>m. output_names m Y) (map fst (months st)))))"
proof -
  from assms obtain st where pf: "parse_file text = Inr st"
    and rl: "render_loop (months st) (var_Y st) = Inr writes"
    by (rule main_success)
  from pf have pl: "parse_loop (file_lines text) initial_state = Inr st"
    by (simp add: parse_file_def)
  note ne = file_lines_nonempty [of "text"]
  show ?thesis
  proof (cases "filter is_header (file_lines text) = []")
    case True
    have "var_M initial_state = None" by (simp add: initial_state_def)
    from parse_loop_no_header [OF pl ne this True] pl have "st = initial_state"
      by simp
    with rl have "months st = [] \<and> writes = []"
      by (simp add: initial_state_def)
    with pf show ?thesis by blast
  next
    case False
    with parse_loop_year [OF pl ne] obtain Y where y: "var_Y st = Some Y"
      and ly: "last_year (file_lines text) = Some Y"
      by auto
    have "[] \<notin> set (map fst (months initial_state))"
      by (simp add: initial_state_def)
    with pl have "[] \<notin> set (map fst (months st))"
      by (rule parse_loop_keys)
    from render_loop_names [OF this, of Y] rl y
    have "map fst writes = concat (map (\<lambda>m. output_names m Y) (map fst (months st)))"
      by auto
    with pf ly show ?thesis by blast
  qed
qed

lemma parse_two_year_file:
  "parse_file two_year_file =
     Inr \<lparr>months = [(''01'', block_grid (replicate 180 (uniform_line ''  -180''))),
                    (''02'', block_grid (replicate 180 (uniform_line ''  2150'')))],
          var_M = Some ''02'', var_Y = Some ''1871'', var_r = Some 180\<rparr>"
  using two_periods [OF _ py_split_samples(1) _ py_split_samples(2) _ _ good_samples]
  by (simp add: parse_file_def file_lines_samples)

lemma length_uniform_line: "length w = 6 \<Longrightarrow> length (uniform_line w) = 2161"
  by (simp add: uniform_line_def length_concat_replicate)

lemma filter_header_two_periods:
  assumes "length h1 < 50" and "length h2 < 50" and "length w1 = 6" and "length w2 = 6"
  shows "filter is_header (h1 # replicate 180 (uniform_line w1) @ h2 # replicate 180 (uniform_line w2))
           = [h1, h2]"
  using assms by (simp add: is_header_def length_uniform_line)

lemma last_year_two_year_file: "last_year (file_lines two_year_file) = Some ''1871''"
proof -
  have "filter is_header (file_lines two_year_file)
          = [''1 01 1870'' @ [CHR 0x0A], ''1 02 1871'' @ [CHR 0x0A]]"
    unfolding file_lines_samples by (rule filter_header_two_periods) simp_all
  moreover have "year_of (''1 02 1871'' @ [CHR 0x0A]) = Some ''1871''"
    by (simp only: year_of_def py_split_samples list.case)
  ultimately show ?thesis
    by (simp only: last_year_def rev.simps append.simps list.case)
qed

lemma output_names_samples:
  "output_names ''01'' ''1871'' = [''01-01-1871-raw.tif'', ''01-01-1871-RGB.png'']"
  "output_names ''02'' ''1871'' = [''01-02-1871-raw.tif'', ''01-02-1871-RGB.png'']"
  by (simp_all add: output_names_def zero_pad2_def)

theorem output_naming_witness:
  "\<exists>writes. main two_year_file = Inr writes \<and>
     map fst writes = [''01-01-1871-raw.tif'', ''01-01-1871-RGB.png'',
                       ''01-02-1871-raw.tif'', ''01-02-1871-RGB.png'']"
proof -
  have "\<exists>writes. main two_year_file = Inr writes"
    by (simp add: main_def parse_two_year_file Let_def)
  then obtain writes where m: "main two_year_file = Inr writes" ..
  from output_naming [OF m] obtain st where st: "parse_file two_year_file = Inr st \<and>
        ((months st = [] \<and> writes = []) \<or>
         (\<exists>Y. last_year (file_lines two_year_file) = Some Y \<and>
              map fst writes = concat (map (\<lambda>m. output_names m Y) (map fst (months st)))))" ..
  then have pf: "parse_file two_year_file = Inr st" ..
  then have keys: "map fst (months st) = [''01'', ''02'']"
    unfolding parse_two_year_file by (cases st) simp
  then have ne: "months st \<noteq> []" by auto
  from st have "(months st = [] \<and> writes = []) \<or>
         (\<exists>Y. last_year (file_lines two_year_file) = Some Y \<and>
              map fst writes = concat (map (\<lambda>m. output_names m Y) (map fst (months st))))" ..
  with ne have "\<exists>Y. last_year (file_lines two_year_file) = Some Y \<and>
              map fst writes = concat (map (\<lambda>m. output_names m Y) (map fst (months st)))"
    by simp
  then obtain Y where yn: "last_year (file_lines two_year_file) = Some Y \<and>
              map fst writes = concat (map (\<lambda>m. output_names m Y) (map fst (months st)))" ..
  then have "last_year (file_lines two_year_file) = Some Y" ..
  then have y: "Y = ''1871''"
    by (simp only: last_year_two_year_file option.inject)
  from yn have "map fst writes = concat (map (\<lambda>m. output_names m Y) (map fst (months st)))" ..
  then have "map fst writes = output_names ''01'' ''1871'' @ output_names ''02'' ''1871''"
    by (simp only: keys y list.map concat.simps append_Nil2)
  then have "map fst writes = [''01-01-1871-raw.tif'', ''01-01-1871-RGB.png'',
                       ''01-02-1871-raw.tif'', ''01-02-1871-RGB.png'']"
    by (simp only: output_names_samples append.simps)
  with m show ?thesis by (intro exI conjI)
qed

text \<open>
  Claim C10. The keys of the dictionary are the month tokens as they stand in the header
  lines.  For a file of two headers whose month tokens are different but equal once
  padded to two characters (\<open>1\<close> and \<open>01\<close>), each followed by well-formed data lines: the
  dictionary has two entries; the four files are written under two names only, the same
  for both months; and after the run each name holds what was written for the second
  month.
\<close>

theorem padded_month_collision:
  assumes "file_lines text = h1 # ls1 @ h2 # ls2"
    and "length h1 < 50" and "py_split h1 = D1 # M1 # Y1 # e1"
    and "length h2 < 50" and "py_split h2 = D2 # M2 # Y2 # e2"
    and "length ls1 \<le> 180" and "length ls2 \<le> 180"
    and "\<forall>l\<in>set ls1. good_line l" and "\<forall>l\<in>set ls2. good_line l"
    and "M1 \<noteq> M2" and "zero_pad2 M1 = zero_pad2 M2"
  shows "\<exists>st writes. parse_file text = Inr st \<and>
           months st = [(M1, block_grid ls1), (M2, block_grid ls2)] \<and>
           main text = Inr writes \<and>
           map fst writes = output_names M1 Y2 @ output_names M2 Y2 \<and>
           output_names M1 Y2 = output_names M2 Y2 \<and>
           files_after writes (output_names M2 Y2 ! 0) = Some (RawTiff (block_grid ls2)) \<and>
           files_after writes (output_names M2 Y2 ! 1) =
             Some (PalettePng (colour_pass (block_grid ls2)) palette)"
proof -
  define st where "st = \<lparr>months = [(M1, block_grid ls1), (M2, block_grid ls2)],
                var_M = Some M2, var_Y = Some Y2, var_r = Some (length ls2)\<rparr>"
  have pf: "parse_file text = Inr st"
    using two_periods [OF assms(2-9)] assms(10) by (simp add: parse_file_def assms(1) st_def)
  from py_split_nonempty [of h1] assms(3) have m1: "M1 \<noteq> []" by auto
  from py_split_nonempty [of h2] assms(5) have m2: "M2 \<noteq> []" by auto
  define raw where "raw = ''01-'' @ zero_pad2 M2 @ ''-'' @ Y2 @ ''-raw.tif''"
  define rgb where "rgb = ''01-'' @ zero_pad2 M2 @ ''-'' @ Y2 @ ''-RGB.png''"
  define writes where "writes =
     [(raw, RawTiff (block_grid ls1)), (rgb, PalettePng (colour_pass (block_grid ls1)) palette),
      (raw, RawTiff (block_grid ls2)), (rgb, PalettePng (colour_pass (block_grid ls2)) palette)]"
  have diff: "raw \<noteq> rgb"
    by (simp add: raw_def rgb_def)
  have m: "main text = Inr writes"
    by (simp add: main_def pf st_def Let_def pad_month_zero_pad2 [OF m1]
        pad_month_zero_pad2 [OF m2] assms(11) writes_def raw_def rgb_def)
  have names: "output_names M1 Y2 = [raw, rgb]" "output_names M2 Y2 = [raw, rgb]"
    by (simp_all add: output_names_def assms(11) raw_def rgb_def)
  have "files_after writes raw = Some (RawTiff (block_grid ls2))"
    "files_after writes rgb = Some (PalettePng (colour_pass (block_grid ls2)) palette)"
    using diff by (simp_all add: files_after_def writes_def)
  with pf m names show ?thesis
    by (simp add: st_def writes_def)
qed

theorem padded_month_collision_witness:
  "\<exists>st writes. parse_file padded_month_file = Inr st \<and>
     map fst (months st) = [''1'', ''01''] \<and>
     main padded_month_file = Inr writes \<and>
     map fst writes = [''01-01-1870-raw.tif'', ''01-01-1870-RGB.png'',
                       ''01-01-1870-raw.tif'', ''01-01-1870-RGB.png''] \<and>
     files_after writes ''01-01-1870-raw.tif'' =
       Some (RawTiff (block_grid (replicate 180 (uniform_line ''  2150''))))"
proof -
  have z: "zero_pad2 ''1'' = zero_pad2 ''01''"
    by (simp add: zero_pad2_def)
  from padded_month_collision [OF file_lines_samples(3) _ py_split_samples(4) _
      py_split_samples(1) _ _ good_samples _ z]
  show ?thesis
    by (simp add: output_names_def zero_pad2_def) force
qed

end
